theory Spec2Isabelle
  imports Main "HOL-Library.Sublist" "HOL-Library.AList"
begin

section \<open>Go strings\<close>

text \<open>
  A Go \<^verbatim>\<open>string\<close> is a sequence of bytes, \<^verbatim>\<open>len\<close> counts bytes and \<^verbatim>\<open>s[i:j]\<close> slices
  bytes, so a string is a \<^typ>\<open>char list\<close> (an Isabelle \<^typ>\<open>char\<close> is one byte).  Non-ASCII
  text is its UTF-8 encoding.
\<close>

abbreviation nl :: char where "nl \<equiv> CHR 0x0A"

definition strings_HasPrefix :: "string \<Rightarrow> string \<Rightarrow> bool" where
  "strings_HasPrefix s p = prefix p s"

text \<open>\<^verbatim>\<open>strings.Index(s, sub)\<close>: the byte offset of the first occurrence; \<open>None\<close> stands for -1.\<close>

fun strings_Index :: "string \<Rightarrow> string \<Rightarrow> nat option" where
  "strings_Index [] sub = (if sub = [] then Some 0 else None)"
| "strings_Index (c # t) sub =
     (if prefix sub (c # t) then Some 0 else map_option Suc (strings_Index t sub))"

definition strings_Contains :: "string \<Rightarrow> string \<Rightarrow> bool" where
  "strings_Contains s sub = (strings_Index s sub \<noteq> None)"

text \<open>\<^verbatim>\<open>strings.Split(s, "\n")\<close>; main.go splits on the one-byte separator only.\<close>

fun strings_Split :: "string \<Rightarrow> char \<Rightarrow> string list" where
  "strings_Split [] sep = [[]]"
| "strings_Split (c # t) sep =
     (if c = sep then [] # strings_Split t sep
      else (case strings_Split t sep of l # ls \<Rightarrow> (c # l) # ls | [] \<Rightarrow> [[c]]))"

fun strings_Join :: "string list \<Rightarrow> string \<Rightarrow> string" where
  "strings_Join [] sep = []"
| "strings_Join [x] sep = x"
| "strings_Join (x # y # ys) sep = x @ sep @ strings_Join (y # ys) sep"

text \<open>\<^verbatim>\<open>strings.Count(s, " ")\<close>, for a one-byte pattern.\<close>

definition strings_Count :: "string \<Rightarrow> char \<Rightarrow> nat" where
  "strings_Count s c = length (filter (\<lambda>x. x = c) s)"

subsection \<open>Unicode white space\<close>

text \<open>
  \<^verbatim>\<open>unicode.IsSpace\<close> holds of U+0009..U+000D, U+0020, U+0085, U+00A0, U+1680,
  U+2000..U+200A, U+2028, U+2029, U+202F, U+205F and U+3000.  \<open>space_len s\<close> is the number
  of bytes of the white-space rune that starts \<open>s\<close> (0 when there is none); a byte that does
  not start one of these encodings is either another rune or invalid UTF-8, which Go decodes
  as U+FFFD of width one, not a space.
\<close>

definition ascii_space :: "char \<Rightarrow> bool" where
  "ascii_space c = (c \<in> set [CHR 0x09, CHR 0x0A, CHR 0x0B, CHR 0x0C, CHR 0x0D, CHR 0x20])"

fun space_len :: "string \<Rightarrow> nat" where
  "space_len [] = 0"
| "space_len (c # t) =
     (if ascii_space c then 1
      else if c = CHR 0xC2 then
        (case t of d # _ \<Rightarrow> if d = CHR 0x85 \<or> d = CHR 0xA0 then 2 else 0 | [] \<Rightarrow> 0)
      else if c = CHR 0xE1 then
        (case t of d # e # _ \<Rightarrow> if d = CHR 0x9A \<and> e = CHR 0x80 then 3 else 0 | _ \<Rightarrow> 0)
      else if c = CHR 0xE2 then
        (case t of d # e # _ \<Rightarrow>
           if d = CHR 0x80 \<and> ((0x80 \<le> (of_char e :: nat) \<and> (of_char e :: nat) \<le> 0x8A)
                \<or> e = CHR 0xA8 \<or> e = CHR 0xA9 \<or> e = CHR 0xAF) then 3
           else if d = CHR 0x81 \<and> e = CHR 0x9F then 3 else 0
         | _ \<Rightarrow> 0)
      else if c = CHR 0xE3 then
        (case t of d # e # _ \<Rightarrow> if d = CHR 0x80 \<and> e = CHR 0x80 then 3 else 0 | _ \<Rightarrow> 0)
      else 0)"

text \<open>
  The same test at the end of a string, on the reversed bytes, as
  \<^verbatim>\<open>utf8.DecodeLastRuneInString\<close> finds it: the last byte when it is ASCII, otherwise the
  encoding that ends there.
\<close>

fun space_len_last :: "string \<Rightarrow> nat" where
  "space_len_last [] = 0"
| "space_len_last (c # t) =
     (if ascii_space c then 1
      else (case t of
          [] \<Rightarrow> 0
        | d # u \<Rightarrow>
            if d = CHR 0xC2 \<and> (c = CHR 0x85 \<or> c = CHR 0xA0) then 2
            else (case u of
                [] \<Rightarrow> 0
              | e # _ \<Rightarrow> if space_len [e, d, c] = 3 then 3 else 0)))"

lemma space_len_le: "space_len s \<le> length s"
  by (cases s) (auto split: list.splits)

lemma space_len_last_le: "space_len_last s \<le> length s"
  by (cases s) (auto split: list.splits)

function trim_left :: "string \<Rightarrow> string" where
  "trim_left s = (if space_len s = 0 then s else trim_left (drop (space_len s) s))"
  by pat_completeness auto
termination
proof (relation "measure length")
  fix s :: string
  assume "space_len s \<noteq> 0"
  with space_len_le [of s] show "(drop (space_len s) s, s) \<in> measure length"
    by simp
qed simp

declare trim_left.simps [simp del]

function trim_right_rev :: "string \<Rightarrow> string" where
  "trim_right_rev s =
     (if space_len_last s = 0 then s else trim_right_rev (drop (space_len_last s) s))"
  by pat_completeness auto
termination
proof (relation "measure length")
  fix s :: string
  assume "space_len_last s \<noteq> 0"
  with space_len_last_le [of s] show "(drop (space_len_last s) s, s) \<in> measure length"
    by simp
qed simp

declare trim_right_rev.simps [simp del]

text \<open>\<^verbatim>\<open>strings.TrimSpace\<close>: leading white space goes first, then trailing white space.\<close>

definition strings_TrimSpace :: "string \<Rightarrow> string" where
  "strings_TrimSpace s = rev (trim_right_rev (rev (trim_left s)))"

text \<open>\<^verbatim>\<open>strings.Fields\<close>: the maximal runs of bytes between white-space runes.\<close>

function fields_from :: "string \<Rightarrow> string \<Rightarrow> string list" where
  "fields_from w [] = (if w = [] then [] else [rev w])"
| "fields_from w (c # t) =
     (if space_len (c # t) = 0 then fields_from (c # w) t
      else (if w = [] then [] else [rev w]) @ fields_from [] (drop (space_len (c # t) - 1) t))"
  by pat_completeness auto
termination
  by (relation "measure (\<lambda>(w, s). length s)") auto

definition strings_Fields :: "string \<Rightarrow> string list" where
  "strings_Fields s = fields_from [] s"

section \<open>Go regular expressions\<close>

text \<open>
  The syntax of the regular expressions main.go compiles.  \<open>BeginLine\<close> and \<open>EndLine\<close> are
  \<^verbatim>\<open>^\<close> and \<^verbatim>\<open>$\<close> under the flag \<^verbatim>\<open>(?m)\<close>, \<open>BeginText\<close> and \<open>EndText\<close> are \<^verbatim>\<open>^\<close> and \<^verbatim>\<open>$\<close>
  without it.  The flag of \<open>Star\<close> says whether the repetition is greedy (\<^verbatim>\<open>x*\<close>) or not
  (\<^verbatim>\<open>x*?\<close>).  The classes are \<^verbatim>\<open>.\<close> (anything but a newline), \<^verbatim>\<open>\s\<close> (tab, newline, form
  feed, carriage return, space), \<^verbatim>\<open>\d\<close> and a negated one-character class.

  The matcher works on bytes.  Go's works on runes, and reads a byte that is not valid UTF-8
  as a rune of width one; in every expression of main.go what follows a class is an ASCII
  literal or the end of a line, and an ASCII byte always starts a rune, so both find the same
  matches and the same groups.
\<close>

datatype cls = AnyNotNL | Space | Digit | NotChar char

fun in_cls :: "cls \<Rightarrow> char \<Rightarrow> bool" where
  "in_cls AnyNotNL c = (c \<noteq> nl)"
| "in_cls Space c = (c \<in> set [CHR 0x09, CHR 0x0A, CHR 0x0C, CHR 0x0D, CHR 0x20])"
| "in_cls Digit c = (48 \<le> (of_char c :: nat) \<and> (of_char c :: nat) \<le> 57)"
| "in_cls (NotChar d) c = (c \<noteq> d)"

datatype re = Lit string | Cls cls | Seq re re | Star re bool | Grp nat re
  | BeginText | EndText | BeginLine | EndLine

definition Plus :: "re \<Rightarrow> bool \<Rightarrow> re" where
  "Plus r greedy = Seq r (Star r greedy)"

fun cat :: "re list \<Rightarrow> re" where
  "cat [] = Lit []"
| "cat [r] = r"
| "cat (r # rs) = Seq r (cat rs)"

text \<open>
  A matcher state: the byte before the current position (\<open>None\<close> at the start of the text),
  the text from the current position on, and the groups captured so far (latest first).
  \<open>rmatch r st\<close> lists the states in which a match of \<open>r\<close> begun at \<open>st\<close> can end, in the
  order in which a backtracking search finds them: Go's regexp package returns the leftmost
  match, and among those the one a backtracking search finds first.
\<close>

type_synonym mstate = "char option \<times> string \<times> (nat \<times> string) list"

fun rest_len :: "mstate \<Rightarrow> nat" where
  "rest_len (p, s, g) = length s"

function (sequential) rmatch :: "re \<Rightarrow> mstate \<Rightarrow> mstate list" where
  "rmatch (Lit l) (p, s, g) =
     (if prefix l s then [(if l = [] then p else Some (last l), drop (length l) s, g)] else [])"
| "rmatch (Cls k) (p, s, g) =
     (case s of [] \<Rightarrow> [] | c # t \<Rightarrow> if in_cls k c then [(Some c, t, g)] else [])"
| "rmatch (Seq a b) st =
     concat (map (\<lambda>st'. if rest_len st' \<le> rest_len st then rmatch b st' else [])
                 (rmatch a st))"
| "rmatch (Star a greedy) st =
     (let more = concat (map (\<lambda>st'. if rest_len st' < rest_len st
                                      then rmatch (Star a greedy) st' else [])
                             (rmatch a st))
      in if greedy then more @ [st] else st # more)"
| "rmatch (Grp n a) (p, s, g) =
     map (\<lambda>(p', s', g'). (p', s', (n, take (length s - length s') s) # g'))
         (rmatch a (p, s, g))"
| "rmatch BeginText (p, s, g) = (if p = None then [(p, s, g)] else [])"
| "rmatch EndText (p, s, g) = (if s = [] then [(p, s, g)] else [])"
| "rmatch BeginLine (p, s, g) = (if p = None \<or> p = Some nl then [(p, s, g)] else [])"
| "rmatch EndLine (p, s, g) = (if s = [] \<or> hd s = nl then [(p, s, g)] else [])"
  by pat_completeness auto
termination
  by (relation "measures [\<lambda>(r, st). rest_len st, \<lambda>(r, st). size r]") auto

text \<open>
  The leftmost match at or after the current position: the text skipped before it and the
  state at its end.
\<close>

fun re_search :: "re \<Rightarrow> char option \<Rightarrow> string \<Rightarrow> (string \<times> mstate) option" where
  "re_search r p [] = (case rmatch r (p, [], []) of m # _ \<Rightarrow> Some ([], m) | [] \<Rightarrow> None)"
| "re_search r p (c # t) =
     (case rmatch r (p, c # t, []) of
        m # _ \<Rightarrow> Some ([], m)
      | [] \<Rightarrow> map_option (\<lambda>(pre, m). (c # pre, m)) (re_search r (Some c) t))"

text \<open>The text of group \<open>n\<close> of a match; a group that took no part reads as the empty string.\<close>

definition submatch :: "(nat \<times> string) list \<Rightarrow> nat \<Rightarrow> string" where
  "submatch g n = (case map_of g n of Some x \<Rightarrow> x | None \<Rightarrow> [])"

text \<open>\<^verbatim>\<open>re.FindStringSubmatch(s)\<close>: the groups of the leftmost match, \<open>None\<close> for \<^verbatim>\<open>nil\<close>.\<close>

definition FindStringSubmatch :: "re \<Rightarrow> string \<Rightarrow> (nat \<times> string) list option" where
  "FindStringSubmatch r s = map_option (\<lambda>(pre, p, t, g). g) (re_search r None s)"

definition MatchString :: "re \<Rightarrow> string \<Rightarrow> bool" where
  "MatchString r s = (re_search r None s \<noteq> None)"

text \<open>
  \<^verbatim>\<open>re.FindAllStringSubmatch(s, -1)\<close> and \<^verbatim>\<open>re.ReplaceAllString(s, repl)\<close>: the successive
  matches, each search starting where the match before ended.  Every expression of main.go
  matches at least one byte, so Go's rule for empty matches never applies; the model stops
  at a match that consumes nothing.
\<close>

function find_all_from :: "re \<Rightarrow> char option \<Rightarrow> string \<Rightarrow> (nat \<times> string) list list" where
  "find_all_from r p s =
     (case re_search r p s of
        None \<Rightarrow> []
      | Some (pre, p', s', g) \<Rightarrow>
          if length s' < length s then g # find_all_from r p' s' else [])"
  by pat_completeness auto
termination
  by (relation "measure (\<lambda>(r, p, s). length s)") auto

declare find_all_from.simps [simp del]

definition FindAllStringSubmatch :: "re \<Rightarrow> string \<Rightarrow> (nat \<times> string) list list" where
  "FindAllStringSubmatch r s = find_all_from r None s"

function replace_all_from ::
  "re \<Rightarrow> ((nat \<times> string) list \<Rightarrow> string) \<Rightarrow> char option \<Rightarrow> string \<Rightarrow> string" where
  "replace_all_from r repl p s =
     (case re_search r p s of
        None \<Rightarrow> s
      | Some (pre, p', s', g) \<Rightarrow>
          if length s' < length s then pre @ repl g @ replace_all_from r repl p' s' else s)"
  by pat_completeness auto
termination
  by (relation "measure (\<lambda>(r, repl, p, s). length s)") auto

declare replace_all_from.simps [simp del]

definition ReplaceAllString ::
  "re \<Rightarrow> string \<Rightarrow> ((nat \<times> string) list \<Rightarrow> string) \<Rightarrow> string" where
  "ReplaceAllString r s repl = replace_all_from r repl None s"

section \<open>The standard library functions taken as parameters\<close>

text \<open>
  \<^verbatim>\<open>strings.ToUpper\<close> and \<^verbatim>\<open>strings.ToLower\<close> follow the Unicode case tables, and
  \<^verbatim>\<open>url.Parse\<close> and \<^verbatim>\<open>(*url.URL).String\<close> are the parser and the serialiser of net/url.
  None of this is code of main.go; the program is modelled over any four such functions,
  \<open>'u\<close> being the type of a parsed URL and \<open>None\<close> a parse error.
\<close>

record 'u stdlib =
  strings_ToUpper :: "string \<Rightarrow> string"
  strings_ToLower :: "string \<Rightarrow> string"
  url_Parse :: "string \<Rightarrow> 'u option"
  url_String :: "'u \<Rightarrow> string"

section \<open>main.go\<close>

record Ability =
  Name :: string
  Description :: string
  Image :: string

record Agent =
  Name :: string
  Role :: string
  Abilities :: "Ability list"
  Media :: "string list"
  Markdown :: string

subsection \<open>urlEncode\<close>

definition urlEncode :: "'u stdlib \<Rightarrow> string \<Rightarrow> string" where
  "urlEncode L rawURL =
     (case url_Parse L rawURL of
        None \<Rightarrow> rawURL
      | Some parsedURL \<Rightarrow> url_String L parsedURL)"

subsection \<open>extractName\<close>

text \<open>\<^verbatim>\<open>^#\s+(.+)$\<close>\<close>

definition nameRe :: re where
  "nameRe = cat [BeginText, Lit ''#'', Plus (Cls Space) True,
                 Grp 1 (Plus (Cls AnyNotNL) True), EndText]"

fun extractName_loop :: "string list \<Rightarrow> string" where
  "extractName_loop [] = []"
| "extractName_loop (line # lines) =
     (case FindStringSubmatch nameRe line of
        Some matches \<Rightarrow> strings_TrimSpace (submatch matches 1)
      | None \<Rightarrow> extractName_loop lines)"

definition extractName :: "string \<Rightarrow> string" where
  "extractName markdown = extractName_loop (strings_Split markdown nl)"

subsection \<open>extractRole\<close>

text \<open>\<^verbatim>\<open>(?m)^ROLE\s*\n\s*(.+)$\<close>\<close>

definition roleRe :: re where
  "roleRe = cat [BeginLine, Lit ''ROLE'', Star (Cls Space) True, Lit [nl],
                 Star (Cls Space) True, Grp 1 (Plus (Cls AnyNotNL) True), EndLine]"

definition extractRole :: "string \<Rightarrow> string" where
  "extractRole markdown =
     (case FindStringSubmatch roleRe markdown of
        Some matches \<Rightarrow> strings_TrimSpace (submatch matches 1)
      | None \<Rightarrow> [])"

subsection \<open>extractImages\<close>

text \<open>\<^verbatim>\<open>!\[.*?\]\((.*?)\)\<close>\<close>

definition imageRe :: re where
  "imageRe = cat [Lit ''!['', Star (Cls AnyNotNL) False, Lit '']('',
                  Grp 1 (Star (Cls AnyNotNL) False), Lit '')'']"

text \<open>
  The loop over the matches, with its two variables: the slice \<open>images\<close> and the set of keys
  of the map \<open>seen\<close>.
\<close>

fun extractImages_loop ::
  "'u stdlib \<Rightarrow> (nat \<times> string) list list \<Rightarrow> string list \<Rightarrow> string set \<Rightarrow> string list" where
  "extractImages_loop L [] images seen = images"
| "extractImages_loop L (match # matches) images seen =
     (let rawURL = strings_TrimSpace (submatch match 1)
      in if rawURL \<noteq> [] \<and> rawURL \<notin> seen
         then extractImages_loop L matches (images @ [urlEncode L rawURL]) (insert rawURL seen)
         else extractImages_loop L matches images seen)"

definition extractImages :: "'u stdlib \<Rightarrow> string \<Rightarrow> string list" where
  "extractImages L markdown =
     extractImages_loop L (FindAllStringSubmatch imageRe markdown) [] {}"

subsection \<open>allWordsTitleCase and cleanDescription\<close>

definition allWordsTitleCase :: "string \<Rightarrow> bool" where
  "allWordsTitleCase s =
     list_all (\<lambda>word. word = [] \<or>
                 \<not> ((of_char (hd word) :: nat) < 65 \<or> (of_char (hd word) :: nat) > 90))
              (strings_Fields s)"

text \<open>\<^verbatim>\<open>\[([^\]]+)\]\([^\)]+\)\<close> and \<^verbatim>\<open>\s+\<close>\<close>

definition linkRe :: re where
  "linkRe = cat [Lit ''['', Grp 1 (Plus (Cls (NotChar CHR '']'')) True), Lit '']('',
                 Plus (Cls (NotChar CHR '')'')) True, Lit '')'']"

definition spacesRe :: re where
  "spacesRe = Plus (Cls Space) True"

definition copyright :: string where
  "copyright = [CHR 0xC2, CHR 0xA9]"

definition descFooterPatterns :: "string list" where
  "descFooterPatterns =
     [''Download Riot Mobile Companion App'',
      ''Twitter'', ''YouTube'', ''Instagram'', ''TikTok'', ''Facebook'', ''Discord'',
      ''Riot Games'',
      copyright @ '' 2020-2025 Riot Games'',
      ''Privacy Notice'',
      ''Terms of Service'',
      ''ESRB'',
      ''Blood'', ''Language'', ''Violence'', ''Users Interact'', ''In-Game Purchases'',
      ''Check Session IFrame'',
      ''OIDC OP Iframe'',
      ''Auth Error'']"

text \<open>One round of the loop over the footer patterns.\<close>

definition cutFooter :: "string \<Rightarrow> string \<Rightarrow> string" where
  "cutFooter desc pattern =
     (if strings_Contains desc pattern
      then (case strings_Index desc pattern of
              Some idx \<Rightarrow> if idx > 0 then take idx desc else desc
            | None \<Rightarrow> desc)
      else desc)"

definition cleanDescription :: "string \<Rightarrow> string" where
  "cleanDescription desc0 =
     (let desc1 = ReplaceAllString linkRe desc0 (\<lambda>g. submatch g 1);
          desc2 = ReplaceAllString imageRe desc1 (\<lambda>g. []);
          desc3 = ReplaceAllString spacesRe desc2 (\<lambda>g. '' '');
          desc4 = strings_TrimSpace desc3;
          desc5 = foldl cutFooter desc4 descFooterPatterns
      in strings_TrimSpace desc5)"

subsection \<open>parseAbilities\<close>

text \<open>
  The section: from the first \<^verbatim>\<open>## SPECIAL ABILITIES\<close> to the earliest footer pattern after
  it; \<open>None\<close> is the early return of the empty slice.
\<close>

definition sectionFooterPatterns :: "string list" where
  "sectionFooterPatterns =
     [nl # ''- [Download Riot Mobile Companion App]'',
      nl # ''[Riot Games]'',
      nl # copyright @ '' 2020-2025'']"

definition footerStart_step :: "string \<Rightarrow> nat \<Rightarrow> string \<Rightarrow> nat" where
  "footerStart_step abilitiesSection footerStart pattern =
     (case strings_Index abilitiesSection pattern of
        Some idx \<Rightarrow> if idx < footerStart then idx else footerStart
      | None \<Rightarrow> footerStart)"

definition abilitiesSection :: "string \<Rightarrow> string option" where
  "abilitiesSection markdown =
     (case strings_Index markdown ''## SPECIAL ABILITIES'' of
        None \<Rightarrow> None
      | Some abilitiesIndex \<Rightarrow>
          (let section0 = drop abilitiesIndex markdown;
               footerStart = foldl (footerStart_step section0) (length section0)
                               sectionFooterPatterns
           in Some (take footerStart section0)))"

text \<open>\<^verbatim>\<open>(?m)^(\d+)\.\s*!\[.*?\]\((.*?)\)\<close>\<close>

definition abilityImageRe :: re where
  "abilityImageRe = cat [BeginLine, Grp 1 (Plus (Cls Digit) True), Lit ''.'',
                         Star (Cls Space) True, Lit ''!['', Star (Cls AnyNotNL) False,
                         Lit '']('', Grp 2 (Star (Cls AnyNotNL) False), Lit '')'']"

text \<open>
  \<^verbatim>\<open>num := 0; fmt.Sscanf(match[1], "%d", &num)\<close> on a string of digits: the number, and 0
  (\<open>num\<close> untouched) when it does not fit the 64-bit \<^verbatim>\<open>int\<close>.
\<close>

definition decimal :: "string \<Rightarrow> int" where
  "decimal ds = foldl (\<lambda>n c. 10 * n + (int (of_char c) - 48)) 0 ds"

definition Sscanf_d :: "string \<Rightarrow> int" where
  "Sscanf_d ds = (if decimal ds \<le> 2 ^ 63 - 1 then decimal ds else 0)"

text \<open>
  \<open>imageMap\<close> is a Go map from \<^verbatim>\<open>int\<close> to \<^verbatim>\<open>string\<close>: an association list with one entry
  per key, so that its length is \<^verbatim>\<open>len(imageMap)\<close>, read with the zero value \<^verbatim>\<open>""\<close> for a
  missing key.
\<close>

type_synonym imap = "(int \<times> string) list"

definition imageMap_of :: "(nat \<times> string) list list \<Rightarrow> imap" where
  "imageMap_of imageMatches =
     foldl (\<lambda>m match. AList.update (Sscanf_d (submatch match 1)) (submatch match 2) m)
           [] imageMatches"

definition imap_get :: "imap \<Rightarrow> int \<Rightarrow> string" where
  "imap_get m k = (case map_of m k of Some v \<Rightarrow> v | None \<Rightarrow> [])"

fun numberedImagesEnd_loop :: "nat \<Rightarrow> nat \<Rightarrow> string list \<Rightarrow> nat" where
  "numberedImagesEnd_loop i numberedImagesEnd [] = numberedImagesEnd"
| "numberedImagesEnd_loop i numberedImagesEnd (line # lines) =
     numberedImagesEnd_loop (i + 1)
       (if MatchString abilityImageRe line then i + 1 else numberedImagesEnd) lines"

definition skipWords :: "string list" where
  "skipWords =
     [''ROLE'', ''SPECIAL'', ''ABILITIES'', ''BLOOD'', ''LANGUAGE'', ''VIOLENCE'', ''USERS'',
      ''INTERACT'', ''PURCHASES'', ''Download'', ''Twitter'', ''YouTube'', ''Instagram'',
      ''TikTok'', ''Facebook'', ''Discord'', ''Riot'', ''Games'', ''Privacy'', ''Notice'',
      ''Terms'', ''Service'', ''ESRB'', ''Check'', ''Session'', ''IFrame'', ''OIDC'', ''OP'',
      ''Auth'', ''Error'']"

definition isSkipWord :: "'u stdlib \<Rightarrow> string \<Rightarrow> bool" where
  "isSkipWord L line =
     list_ex (\<lambda>word. strings_ToUpper L line = strings_ToUpper L word) skipWords"

definition isAllCaps :: "'u stdlib \<Rightarrow> string \<Rightarrow> bool" where
  "isAllCaps L line = (strings_ToUpper L line = line \<and> length line > 0)"

definition isTitleCase :: "'u stdlib \<Rightarrow> string \<Rightarrow> bool" where
  "isTitleCase L line =
     (length line > 0 \<and>
      strings_ToUpper L (take 1 line) = take 1 line \<and>
      (length line = 1 \<or> strings_ToLower L (drop 1 line) = drop 1 line \<or>
       strings_Count line CHR '' '' \<le> 3 \<and> allWordsTitleCase line))"

text \<open>The test under which a line is taken for an ability name.\<close>

definition isAbilityName :: "'u stdlib \<Rightarrow> bool \<Rightarrow> string \<Rightarrow> bool" where
  "isAbilityName L seenLargeImage line =
     (seenLargeImage \<and>
      length line > 3 \<and>
      length line < 50 \<and>
      (isAllCaps L line \<or> isTitleCase L line) \<and>
      strings_Count line CHR '' '' \<le> 3)"

text \<open>The inner loop over \<open>j\<close>: the description lines after a name, up to the first stop.\<close>

definition isNextName :: "'u stdlib \<Rightarrow> string \<Rightarrow> bool" where
  "isNextName L nextLine =
     (nextLine \<noteq> [] \<and>
      \<not> strings_HasPrefix nextLine ''!'' \<and>
      \<not> strings_HasPrefix nextLine ''-'' \<and>
      \<not> strings_HasPrefix nextLine ''['' \<and>
      length nextLine > 3 \<and> length nextLine < 50 \<and>
      (strings_ToUpper L nextLine = nextLine \<or> isTitleCase L nextLine))"

definition isFooterLine :: "string \<Rightarrow> bool" where
  "isFooterLine nextLine =
     (strings_Contains nextLine ''Download Riot'' \<or>
      strings_Contains nextLine ''Riot Games'' \<or>
      strings_Contains nextLine (copyright @ '' 2020''))"

fun descriptionLines :: "'u stdlib \<Rightarrow> string list \<Rightarrow> string list" where
  "descriptionLines L [] = []"
| "descriptionLines L (l # lines) =
     (let nextLine = strings_TrimSpace l
      in if isNextName L nextLine then []
         else if isFooterLine nextLine then []
         else if nextLine \<noteq> [] \<and> \<not> strings_HasPrefix nextLine ''!''
              then nextLine # descriptionLines L lines
         else descriptionLines L lines)"

text \<open>
  The outer loop over \<open>i\<close>, with its three variables.  \<open>walk_step\<close> is one iteration at the
  line \<open>l\<close>, \<open>following\<close> being the lines after it; \<open>walk\<close> runs while lines remain and
  \<open>abilityIndex < 4\<close>.
\<close>

record walk_state =
  abilityIndex :: int
  seenLargeImage :: bool
  abilities :: "Ability list"

definition walk_step ::
  "'u stdlib \<Rightarrow> imap \<Rightarrow> walk_state \<Rightarrow> string \<Rightarrow> string list \<Rightarrow> walk_state" where
  "walk_step L imageMap st l following =
     (let line = strings_TrimSpace l
      in if line = [] \<or> strings_HasPrefix line ''!''
         then (if strings_HasPrefix line ''!'' then st\<lparr>seenLargeImage := True\<rparr> else st)
         else if isAbilityName L (seenLargeImage st) line
         then (if isSkipWord L line then st
               else
                 (let description =
                        cleanDescription (strings_Join (descriptionLines L following) '' '');
                      image = (if abilityIndex st + 1 \<le> int (length imageMap)
                               then urlEncode L (imap_get imageMap (abilityIndex st + 1))
                               else [])
                  in st\<lparr>abilities := abilities st @
                            [\<lparr>Ability.Name = line, Description = description, Image = image\<rparr>],
                         abilityIndex := abilityIndex st + 1\<rparr>))
         else st)"

fun walk :: "'u stdlib \<Rightarrow> imap \<Rightarrow> walk_state \<Rightarrow> string list \<Rightarrow> walk_state" where
  "walk L imageMap st [] = st"
| "walk L imageMap st (l # following) =
     (if abilityIndex st < 4 then walk L imageMap (walk_step L imageMap st l following) following
      else st)"

definition parseAbilities :: "'u stdlib \<Rightarrow> string \<Rightarrow> Ability list" where
  "parseAbilities L markdown =
     (case abilitiesSection markdown of
        None \<Rightarrow> []
      | Some section1 \<Rightarrow>
          (let imageMap = imageMap_of (FindAllStringSubmatch abilityImageRe section1);
               lines = strings_Split section1 nl;
               numberedImagesEnd = numberedImagesEnd_loop 0 0 lines
           in abilities (walk L imageMap
                \<lparr>abilityIndex = 0, seenLargeImage = False, abilities = []\<rparr>
                (drop numberedImagesEnd lines))))"

subsection \<open>parseMarkdown\<close>

definition parseMarkdown :: "'u stdlib \<Rightarrow> string \<Rightarrow> Agent" where
  "parseMarkdown L markdown =
     \<lparr>Agent.Name = extractName markdown,
      Role = extractRole markdown,
      Abilities = parseAbilities L markdown,
      Media = extractImages L markdown,
      Markdown = markdown\<rparr>"

section \<open>An instance of the library parameters\<close>

text \<open>
  Closed statements need the library parameters at an instance.  \<open>small_lib\<close> is a small
  one.  Its case functions change the letters a..z and A..Z and nothing else, which is what
  \<^verbatim>\<open>strings.ToUpper\<close> and \<^verbatim>\<open>strings.ToLower\<close> do on a string of ASCII bytes.  Its URL functions
  keep three things of net/url: \<^verbatim>\<open>Parse\<close> cuts the fragment off at the first \<^verbatim>\<open>#\<close>, reads the
  scheme as \<^verbatim>\<open>getScheme\<close> does (letters, then letters, digits, \<^verbatim>\<open>+\<close>, \<^verbatim>\<open>-\<close> and \<^verbatim>\<open>.\<close> up to a
  colon; a URL that starts with a colon is an error) and puts it in lower case; \<^verbatim>\<open>String\<close>
  writes the scheme and its colon when there is a scheme, then the rest, then \<^verbatim>\<open>#\<close> and the
  fragment when the fragment is not empty.  The authority, the query and the escapes are
  left out: the rest of the URL is kept as it is.  The theorems below hold of every
  instance; only closed statements about example documents are made at this one.
\<close>

definition ascii_upper :: "char \<Rightarrow> char" where
  "ascii_upper c =
     (if 97 \<le> (of_char c :: nat) \<and> (of_char c :: nat) \<le> 122
      then char_of ((of_char c :: nat) - 32) else c)"

definition ascii_lower :: "char \<Rightarrow> char" where
  "ascii_lower c =
     (if 65 \<le> (of_char c :: nat) \<and> (of_char c :: nat) \<le> 90
      then char_of ((of_char c :: nat) + 32) else c)"

record URL =
  Scheme :: string
  Rest :: string
  Fragment :: string

definition is_letter :: "char \<Rightarrow> bool" where
  "is_letter c =
     ((97 \<le> (of_char c :: nat) \<and> (of_char c :: nat) \<le> 122) \<or>
      (65 \<le> (of_char c :: nat) \<and> (of_char c :: nat) \<le> 90))"

definition is_scheme_mark :: "char \<Rightarrow> bool" where
  "is_scheme_mark c =
     ((48 \<le> (of_char c :: nat) \<and> (of_char c :: nat) \<le> 57) \<or>
      c = CHR ''+'' \<or> c = CHR ''-'' \<or> c = CHR ''.'')"

text \<open>
  The loop of \<^verbatim>\<open>getScheme\<close>: \<open>scanned\<close> is \<^verbatim>\<open>rawURL[:i]\<close>; the result is the scheme and what
  follows its colon, the empty scheme and the whole string when there is no scheme, and
  \<open>None\<close> for the error.
\<close>

fun getScheme_loop :: "string \<Rightarrow> string \<Rightarrow> string \<Rightarrow> (string \<times> string) option" where
  "getScheme_loop rawURL scanned [] = Some ([], rawURL)"
| "getScheme_loop rawURL scanned (c # cs) =
     (if is_letter c then getScheme_loop rawURL (scanned @ [c]) cs
      else if is_scheme_mark c then
        (if scanned = [] then Some ([], rawURL) else getScheme_loop rawURL (scanned @ [c]) cs)
      else if c = CHR '':'' then
        (if scanned = [] then None else Some (scanned, cs))
      else Some ([], rawURL))"

definition getScheme :: "string \<Rightarrow> (string \<times> string) option" where
  "getScheme rawURL = getScheme_loop rawURL [] rawURL"

definition small_Parse :: "string \<Rightarrow> URL option" where
  "small_Parse rawURL =
     (let u = takeWhile (\<lambda>c. c \<noteq> CHR ''#'') rawURL;
          frag = drop 1 (dropWhile (\<lambda>c. c \<noteq> CHR ''#'') rawURL)
      in case getScheme u of
           None \<Rightarrow> None
         | Some (scheme, rest) \<Rightarrow>
             Some \<lparr>Scheme = map ascii_lower scheme, Rest = rest, Fragment = frag\<rparr>)"

definition small_String :: "URL \<Rightarrow> string" where
  "small_String u =
     (if Scheme u = [] then [] else Scheme u @ '':'') @ Rest u @
     (if Fragment u = [] then [] else CHR ''#'' # Fragment u)"

definition small_lib :: "URL stdlib" where
  "small_lib =
     \<lparr>strings_ToUpper = map ascii_upper,
      strings_ToLower = map ascii_lower,
      url_Parse = small_Parse,
      url_String = small_String\<rparr>"

section \<open>Auxiliary notions and example documents\<close>

text \<open>
  The image targets the loop of \<open>extractImages\<close> considers: the trimmed first group of every
  match, when it is not empty, in document order.  \<open>keep_new seen xs\<close> keeps of \<open>xs\<close> the
  first occurrence of every element that is not in \<open>seen\<close>.
\<close>

definition imageTargets :: "string \<Rightarrow> string list" where
  "imageTargets markdown =
     filter (\<lambda>rawURL. rawURL \<noteq> [])
       (map (\<lambda>match. strings_TrimSpace (submatch match 1))
            (FindAllStringSubmatch imageRe markdown))"

fun keep_new :: "'a set \<Rightarrow> 'a list \<Rightarrow> 'a list" where
  "keep_new seen [] = []"
| "keep_new seen (x # xs) =
     (if x \<in> seen then keep_new seen xs else x # keep_new (insert x seen) xs)"

text \<open>A document with three image targets, two of them with one normal form.\<close>

definition media_doc :: string where
  "media_doc = ''![a](HTTP://x/1.png) ![b]( http://x/1.png ) ![c](HTTP://x/1.png) ![d]()''"

text \<open>The document of the end-to-end scenario of the spec.\<close>

definition jett_doc :: string where
  "jett_doc =
     ''# Jett\<newline>ROLE\<newline>\<newline>Duelist\<newline>\<newline>## SPECIAL ABILITIES\<newline>1. ![a](http://x/1.png)\<newline>CLOUDBURST\<newline>Throws a cloud.\<newline>''
     @ copyright @ '' 2020-2025 Riot Games''"


text \<open>
  Notions for the loop of \<open>parseAbilities\<close>.  A line is an image line when, trimmed, it
  starts with \<^verbatim>\<open>!\<close>.  \<open>emittedName\<close> is what the loop has checked of a line when it appends
  a sub-record named by it; \<open>slotImage\<close> is the image the loop gives the sub-record at slot
  \<open>s\<close> (counted from 0); \<open>walk_inv\<close> is the invariant of the loop.
\<close>

definition isImageLine :: "string \<Rightarrow> bool" where
  "isImageLine l = strings_HasPrefix (strings_TrimSpace l) ''!''"

definition emittedName :: "'u stdlib \<Rightarrow> string \<Rightarrow> bool" where
  "emittedName L n =
     (n \<noteq> [] \<and> \<not> strings_HasPrefix n ''!'' \<and> isAbilityName L True n \<and> \<not> isSkipWord L n)"

definition slotImage :: "'u stdlib \<Rightarrow> imap \<Rightarrow> nat \<Rightarrow> string" where
  "slotImage L imageMap s =
     (if int s + 1 \<le> int (length imageMap)
      then urlEncode L (imap_get imageMap (int s + 1)) else [])"

definition walk_inv :: "'u stdlib \<Rightarrow> imap \<Rightarrow> walk_state \<Rightarrow> bool" where
  "walk_inv L imageMap st =
     (abilityIndex st = int (length (abilities st)) \<and>
      list_all (\<lambda>a. emittedName L (Ability.Name a)) (abilities st) \<and>
      map Image (abilities st) = map (slotImage L imageMap) [0..<length (abilities st)])"

text \<open>
  Documents for the loop: a stop-list word in the place of a name, and a numbered image whose
  number is 2 with no image numbered 1.
\<close>

definition stop_doc :: string where
  "stop_doc = ''## SPECIAL ABILITIES\<newline>1. ![a](http://x/1.png)\<newline>![big](http://x/big.png)\<newline>ROLE\<newline>FIRST ONE\<newline>does one thing.''"

definition ordinal_doc :: string where
  "ordinal_doc = ''## SPECIAL ABILITIES\<newline>2. ![a](http://x/2.png)\<newline>![big](http://x/big.png)\<newline>FIRST ONE\<newline>does one thing.\<newline>SECOND ONE\<newline>does another thing.''"


text \<open>
  For \<open>cleanDescription\<close>: the fragment \<open>f\<close> occurs in the description \<open>d\<close> at its very
  start or not at all.
\<close>

definition onlyAtStart :: "string \<Rightarrow> string \<Rightarrow> bool" where
  "onlyAtStart f d = (strings_Contains d f \<longrightarrow> prefix f d)"


text \<open>A document whose label line starts with a space.\<close>

definition role_doc :: string where
  "role_doc = '' ROLE\<newline>Duelist''"






text \<open>A document in which a description starts with a footer fragment.\<close>

definition twitter_doc :: string where
  "twitter_doc = ''## SPECIAL ABILITIES\<newline>1. ![a](http://x/1.png)\<newline>![big](http://x/big.png)\<newline>FIRST ONE\<newline>Twitter is where the agent posts news and clips every day.''"

text \<open>
  For \<open>extractRole\<close>, the label-then-value pattern in terms of the lines of the document.  A
  label line is \<^verbatim>\<open>ROLE\<close> at the very start of the line with nothing but white space of the
  class \<^verbatim>\<open>\s\<close> after it; a blank line holds nothing but such white space; the value line of
  a label line is the first line after it that is not blank.  \<open>roleMatch\<close> is the value line
  of the first label line that has one.
\<close>

definition isLabelLine :: "string \<Rightarrow> bool" where
  "isLabelLine l = (prefix ''ROLE'' l \<and> list_all (in_cls Space) (drop 4 l))"

definition isBlankLine :: "string \<Rightarrow> bool" where
  "isBlankLine l = list_all (in_cls Space) l"

fun roleMatch :: "string list \<Rightarrow> string option" where
  "roleMatch [] = None"
| "roleMatch (l # ls) =
     (if isLabelLine l
      then (case dropWhile isBlankLine ls of v # _ \<Rightarrow> Some v | [] \<Rightarrow> roleMatch ls)
      else roleMatch ls)"

text \<open>The role found by a search that starts inside the text, \<open>p\<close> being the byte before.\<close>

definition roleAt :: "char option \<Rightarrow> string \<Rightarrow> string" where
  "roleAt p s = (case re_search roleRe p s of
       None \<Rightarrow> []
     | Some (pre, p', t, g) \<Rightarrow> strings_TrimSpace (submatch g 1))"

text \<open>A document with a candidate name before the large image and two after it.\<close>

definition flag_doc :: string where
  "flag_doc = ''## SPECIAL ABILITIES\<newline>1. ![a](http://x/1.png)\<newline>EARLY NAME\<newline>![big](http://x/big.png)\<newline>FIRST ONE\<newline>does one thing.\<newline>SECOND ONE\<newline>does another thing.''"
section \<open>Facts about the string functions\<close>

lemma strings_Index_Some:
  "strings_Index s sub = Some i \<Longrightarrow>
     i \<le> length s \<and> prefix sub (drop i s) \<and> (\<forall>j<i. \<not> prefix sub (drop j s))"
proof (induction s arbitrary: i)
  case Nil
  then show ?case by (simp split: if_splits)
next
  case (Cons c t)
  show ?case
  proof (cases "prefix sub (c # t)")
    case True
    with Cons.prems show ?thesis by simp
  next
    case False
    with Cons.prems obtain i' where i': "strings_Index t sub = Some i'" "i = Suc i'"
      by auto
    from Cons.IH [OF i'(1)] have ih: "i' \<le> length t" "prefix sub (drop i' t)"
      "\<forall>j<i'. \<not> prefix sub (drop j t)" by simp_all
    have "\<not> prefix sub (drop j (c # t))" if "j < i" for j
    proof (cases j)
      case 0
      with False show ?thesis by simp
    next
      case (Suc j')
      with that i'(2) ih(3) show ?thesis by simp
    qed
    with ih i'(2) show ?thesis by simp
  qed
qed

lemma strings_Index_None:
  "strings_Index s sub = None \<Longrightarrow> \<not> prefix sub (drop j s)"
proof (induction s arbitrary: j)
  case Nil
  then show ?case by (simp split: if_splits)
next
  case (Cons c t)
  then show ?case by (cases j) (auto split: if_splits)
qed

lemma footerStart_fold:
  "foldl (footerStart_step sec) a ps = r \<Longrightarrow>
     r \<le> a \<and>
     (r = a \<or> (\<exists>p\<in>set ps. strings_Index sec p = Some r)) \<and>
     (\<forall>p\<in>set ps. \<forall>idx. strings_Index sec p = Some idx \<longrightarrow> r \<le> idx)"
proof (induction ps arbitrary: a)
  case Nil
  then show ?case by simp
next
  case (Cons p ps)
  let ?a' = "footerStart_step sec a p"
  have a': "?a' \<le> a" "?a' = a \<or> strings_Index sec p = Some ?a'"
    "\<forall>idx. strings_Index sec p = Some idx \<longrightarrow> ?a' \<le> idx"
    by (auto simp: footerStart_step_def split: option.splits)
  from Cons.prems have "foldl (footerStart_step sec) ?a' ps = r" by simp
  from Cons.IH [OF this] have ih: "r \<le> ?a'"
    "r = ?a' \<or> (\<exists>p\<in>set ps. strings_Index sec p = Some r)"
    "\<forall>p\<in>set ps. \<forall>idx. strings_Index sec p = Some idx \<longrightarrow> r \<le> idx" by simp_all
  from a' ih show ?case
    by (auto intro: order_trans)
qed


lemma strings_Index_eq_None:
  assumes "\<forall>j. \<not> prefix sub (drop j s)"
  shows "strings_Index s sub = None"
proof (cases "strings_Index s sub")
  case None
  then show ?thesis .
next
  case (Some k)
  from strings_Index_Some [OF this] assms show ?thesis by blast
qed

lemma strings_Index_eq_Some:
  assumes "prefix sub (drop i s)" and "\<forall>j<i. \<not> prefix sub (drop j s)"
  shows "strings_Index s sub = Some i"
proof (cases "strings_Index s sub")
  case None
  from strings_Index_None [OF this, of i] assms(1) show ?thesis by simp
next
  case (Some k)
  from strings_Index_Some [OF this]
  have k: "prefix sub (drop k s)" "\<forall>j<k. \<not> prefix sub (drop j s)" by simp_all
  have "\<not> k < i" using k(1) assms(2) by blast
  moreover have "\<not> i < k" using k(2) assms(1) by blast
  ultimately have "k = i" by simp
  with Some show ?thesis by simp
qed

lemma abilitiesSection_window:
  assumes idx: "strings_Index markdown ''## SPECIAL ABILITIES'' = Some i"
  shows "\<exists>n. i + n \<le> length markdown \<and>
           abilitiesSection markdown = Some (take n (drop i markdown)) \<and>
           (\<forall>p\<in>set sectionFooterPatterns. \<forall>j<n. \<not> prefix p (drop (i + j) markdown)) \<and>
           (i + n = length markdown \<or>
            (\<exists>p\<in>set sectionFooterPatterns. prefix p (drop (i + n) markdown)))"
proof -
  let ?sec = "drop i markdown"
  define n where "n = foldl (footerStart_step ?sec) (length ?sec) sectionFooterPatterns"
  from strings_Index_Some [OF idx] have i: "i \<le> length markdown" by simp
  from footerStart_fold [OF n_def [symmetric]]
  have n: "n \<le> length ?sec"
    "n = length ?sec \<or> (\<exists>p\<in>set sectionFooterPatterns. strings_Index ?sec p = Some n)"
    "\<forall>p\<in>set sectionFooterPatterns. \<forall>idx. strings_Index ?sec p = Some idx \<longrightarrow> n \<le> idx"
    by simp_all
  have sec: "abilitiesSection markdown = Some (take n ?sec)"
    by (simp add: abilitiesSection_def idx n_def Let_def)
  have before: "\<not> prefix p (drop (i + j) markdown)"
    if p: "p \<in> set sectionFooterPatterns" and j: "j < n" for p j
  proof (cases "strings_Index ?sec p")
    case None
    from strings_Index_None [OF this, of j] show ?thesis by (simp add: add.commute)
  next
    case (Some k)
    with n(3) p have "n \<le> k" by blast
    with j have "j < k" by simp
    with strings_Index_Some [OF Some] have "\<not> prefix p (drop j (drop i markdown))" by blast
    then show ?thesis by (simp add: add.commute)
  qed
  have "i + n = length markdown \<or>
        (\<exists>p\<in>set sectionFooterPatterns. prefix p (drop (i + n) markdown))"
    using n(2)
  proof
    assume "n = length ?sec"
    with i show ?thesis by simp
  next
    assume "\<exists>p\<in>set sectionFooterPatterns. strings_Index ?sec p = Some n"
    then obtain p where p: "p \<in> set sectionFooterPatterns" "strings_Index ?sec p = Some n"
      by blast
    from strings_Index_Some [OF p(2)] have "prefix p (drop (i + n) markdown)"
      by (simp add: add.commute)
    with p(1) show ?thesis by blast
  qed
  moreover from n(1) i have "i + n \<le> length markdown" by simp
  ultimately show ?thesis using sec before by blast
qed

section \<open>The loop of parseAbilities\<close>

lemma walk_done: "\<not> abilityIndex st < 4 \<Longrightarrow> walk L imageMap st lines = st"
  by (cases lines) simp_all

lemma walk_step_seen:
  "seenLargeImage st \<Longrightarrow> seenLargeImage (walk_step L imageMap st l following)"
  by (simp add: walk_step_def Let_def)

lemma walk_seen:
  "seenLargeImage st \<Longrightarrow> seenLargeImage (walk L imageMap st lines)"
  by (induction lines arbitrary: st) (simp_all add: walk_step_seen)

lemma walk_step_image:
  "isImageLine l \<Longrightarrow>
     walk_step L imageMap st l following = st\<lparr>seenLargeImage := True\<rparr>"
  by (simp add: walk_step_def isImageLine_def Let_def)

lemma walk_step_unseen:
  "\<not> seenLargeImage st \<Longrightarrow> \<not> isImageLine l \<Longrightarrow>
     walk_step L imageMap st l following = st"
  by (simp add: walk_step_def isImageLine_def isAbilityName_def strings_HasPrefix_def Let_def)

lemma walk_unseen_prefix:
  "\<not> seenLargeImage st \<Longrightarrow> \<forall>l\<in>set pre. \<not> isImageLine l \<Longrightarrow>
     walk L imageMap st (pre @ lines) = walk L imageMap st lines"
proof (induction pre)
  case Nil
  show ?case by simp
next
  case (Cons p pre)
  show ?case
  proof (cases "abilityIndex st < 4")
    case True
    with Cons show ?thesis by (simp add: walk_step_unseen)
  next
    case False
    then show ?thesis by (simp add: walk_done)
  qed
qed

lemma walk_step_name:
  assumes "seenLargeImage st" "strings_TrimSpace l \<noteq> []" "\<not> isImageLine l"
    "isAbilityName L True (strings_TrimSpace l)" "\<not> isSkipWord L (strings_TrimSpace l)"
  shows "walk_step L imageMap st l following =
     st\<lparr>abilities := abilities st @
           [\<lparr>Ability.Name = strings_TrimSpace l,
             Description = cleanDescription (strings_Join (descriptionLines L following) '' ''),
             Image = (if abilityIndex st + 1 \<le> int (length imageMap)
                      then urlEncode L (imap_get imageMap (abilityIndex st + 1)) else [])\<rparr>],
        abilityIndex := abilityIndex st + 1\<rparr>"
  using assms by (simp add: walk_step_def isImageLine_def Let_def)

lemma walk_step_inv:
  assumes "walk_inv L imageMap st"
  shows "walk_inv L imageMap (walk_step L imageMap st l following)"
proof -
  have "isAbilityName L True n" if "isAbilityName L (seenLargeImage st) n" for n
    using that by (simp add: isAbilityName_def)
  with assms show ?thesis
    by (auto simp: walk_inv_def walk_step_def Let_def emittedName_def slotImage_def)
qed

lemma walk_inv:
  "walk_inv L imageMap st \<Longrightarrow> walk_inv L imageMap (walk L imageMap st lines)"
  by (induction lines arbitrary: st) (simp_all add: walk_step_inv)

lemma walk_inv_init:
  "walk_inv L imageMap \<lparr>abilityIndex = 0, seenLargeImage = False, abilities = []\<rparr>"
  by (simp add: walk_inv_def)

lemma parseAbilities_inv:
  assumes "abilitiesSection markdown = Some section1"
  shows "list_all (\<lambda>a. emittedName L (Ability.Name a)) (parseAbilities L markdown)"
    and "map Image (parseAbilities L markdown) =
      map (slotImage L (imageMap_of (FindAllStringSubmatch abilityImageRe section1)))
        [0..<length (parseAbilities L markdown)]"
  using walk_inv [OF walk_inv_init,
      of L "imageMap_of (FindAllStringSubmatch abilityImageRe section1)"
         "drop (numberedImagesEnd_loop 0 0 (strings_Split section1 nl)) (strings_Split section1 nl)"]
    assms
  by (simp_all add: parseAbilities_def walk_inv_def Let_def)

lemma parseAbilities_emittedName:
  assumes "a \<in> set (parseAbilities L markdown)"
  shows "emittedName L (Ability.Name a)"
proof (cases "abilitiesSection markdown")
  case None
  with assms show ?thesis by (simp add: parseAbilities_def)
next
  case (Some section1)
  from parseAbilities_inv(1) [OF this, of L] assms show ?thesis
    by (simp add: list_all_iff)
qed


text \<open>The names the loop emits, from a state with the flag and from a state without it.\<close>

lemma walk_step_not_name:
  assumes "seenLargeImage st" and "\<not> emittedName L (strings_TrimSpace l)"
  shows "walk_step L imageMap st l following = st"
proof -
  let ?n = "strings_TrimSpace l"
  from assms(1) have same: "st\<lparr>seenLargeImage := True\<rparr> = st" by (cases st) simp
  show ?thesis
  proof (cases "?n = [] \<or> strings_HasPrefix ?n ''!''")
    case True
    then show ?thesis by (simp add: walk_step_def Let_def same)
  next
    case False
    with assms(2) have "\<not> isAbilityName L True ?n \<or> isSkipWord L ?n"
      by (simp add: emittedName_def)
    with False assms(1) show ?thesis by (auto simp: walk_step_def Let_def)
  qed
qed

lemma walk_step_emitted:
  assumes "seenLargeImage st" and "emittedName L (strings_TrimSpace l)"
  shows "seenLargeImage (walk_step L imageMap st l following)"
    and "abilityIndex (walk_step L imageMap st l following) = abilityIndex st + 1"
    and "map Ability.Name (abilities (walk_step L imageMap st l following)) =
           map Ability.Name (abilities st) @ [strings_TrimSpace l]"
  using assms by (simp_all add: walk_step_def emittedName_def Let_def)

lemma walk_names_seen:
  "seenLargeImage st \<Longrightarrow>
   map Ability.Name (abilities (walk L imageMap st lines)) =
     map Ability.Name (abilities st) @
       take (nat (4 - abilityIndex st))
         (filter (emittedName L) (map strings_TrimSpace lines))"
proof (induction lines arbitrary: st)
  case Nil
  show ?case by simp
next
  case (Cons l lines)
  show ?case
  proof (cases "abilityIndex st < 4")
    case False
    then have z: "nat (4 - abilityIndex st) = 0" by simp
    show ?thesis unfolding walk_done [OF False] z by simp
  next
    case True
    then have n: "nat (4 - abilityIndex st) = Suc (nat (4 - (abilityIndex st + 1)))" by simp
    have w: "walk L imageMap st (l # lines) =
        walk L imageMap (walk_step L imageMap st l lines) lines"
      using True by simp
    show ?thesis
    proof (cases "emittedName L (strings_TrimSpace l)")
      case False
      with Cons.prems have "walk_step L imageMap st l lines = st"
        by (simp add: walk_step_not_name)
      with Cons.IH [OF Cons.prems] False show ?thesis unfolding w by simp
    next
      case e: True
      let ?st = "walk_step L imageMap st l lines"
      note s = walk_step_emitted [OF Cons.prems e, of imageMap lines]
      from Cons.IH [OF s(1)]
      have "map Ability.Name (abilities (walk L imageMap ?st lines)) =
          (map Ability.Name (abilities st) @ [strings_TrimSpace l]) @
          take (nat (4 - (abilityIndex st + 1)))
            (filter (emittedName L) (map strings_TrimSpace lines))"
        unfolding s(2,3) .
      then show ?thesis unfolding w n using e by simp
    qed
  qed
qed

lemma walk_names_unseen:
  assumes "\<not> seenLargeImage st"
  shows "map Ability.Name (abilities (walk L imageMap st lines)) =
     map Ability.Name (abilities st) @
       take (nat (4 - abilityIndex st))
         (filter (emittedName L)
            (map strings_TrimSpace (drop 1 (dropWhile (\<lambda>l. \<not> isImageLine l) lines))))"
proof -
  let ?pre = "takeWhile (\<lambda>l. \<not> isImageLine l) lines"
  let ?post = "dropWhile (\<lambda>l. \<not> isImageLine l) lines"
  have "\<forall>l\<in>set ?pre. \<not> isImageLine l" by (auto dest: set_takeWhileD)
  from walk_unseen_prefix [OF assms this, of L imageMap ?post]
  have w: "walk L imageMap st lines = walk L imageMap st ?post" by simp
  show ?thesis
  proof (cases ?post)
    case Nil
    show ?thesis unfolding w Nil by simp
  next
    case (Cons i rest)
    then have i: "isImageLine i" using hd_dropWhile [of "\<lambda>l. \<not> isImageLine l" lines] by auto
    show ?thesis
    proof (cases "abilityIndex st < 4")
      case False
      then have z: "nat (4 - abilityIndex st) = 0" by simp
      show ?thesis unfolding w walk_done [OF False] z by simp
    next
      case True
      with i have "walk L imageMap st (i # rest) =
          walk L imageMap (st\<lparr>seenLargeImage := True\<rparr>) rest"
        by (simp add: walk_step_image)
      moreover have "map Ability.Name (abilities (walk L imageMap (st\<lparr>seenLargeImage := True\<rparr>) rest)) =
        map Ability.Name (abilities (st\<lparr>seenLargeImage := True\<rparr>)) @
          take (nat (4 - abilityIndex (st\<lparr>seenLargeImage := True\<rparr>)))
            (filter (emittedName L) (map strings_TrimSpace rest))"
        by (rule walk_names_seen) simp
      ultimately show ?thesis unfolding w Cons by simp
    qed
  qed
qed

lemma parseAbilities_names:
  assumes "abilitiesSection markdown = Some section1"
  shows "map Ability.Name (parseAbilities L markdown) =
     take 4 (filter (emittedName L)
       (map strings_TrimSpace
          (drop 1 (dropWhile (\<lambda>l. \<not> isImageLine l)
             (drop (numberedImagesEnd_loop 0 0 (strings_Split section1 nl))
                   (strings_Split section1 nl))))))"
  using walk_names_unseen [of "\<lparr>abilityIndex = 0, seenLargeImage = False, abilities = []\<rparr>" L
      "imageMap_of (FindAllStringSubmatch abilityImageRe section1)"
      "drop (numberedImagesEnd_loop 0 0 (strings_Split section1 nl)) (strings_Split section1 nl)"]
    assms
  by (simp add: parseAbilities_def Let_def)

lemma take_mem_after:
  assumes "length xs < k"
  shows "n \<in> set (take k (xs @ n # ys))"
proof -
  from assms have "take k (xs @ n # ys) = xs @ n # take (k - Suc (length xs)) ys"
    by (simp add: take_Cons')
  then show ?thesis by simp
qed

lemma walk_image_licenses:
  assumes "isImageLine i"
    and "abilityIndex st + int (length (filter (emittedName L) (map strings_TrimSpace mid))) < 4"
    and "emittedName L (strings_TrimSpace c)"
  shows "strings_TrimSpace c \<in>
     set (map Ability.Name (abilities (walk L imageMap st (i # mid @ c # rest))))"
proof -
  let ?F = "\<lambda>ls. filter (emittedName L) (map strings_TrimSpace ls)"
  let ?st = "st\<lparr>seenLargeImage := True\<rparr>"
  from assms(2) have lt: "abilityIndex st < 4" by simp
  with assms(1) have w: "walk L imageMap st (i # mid @ c # rest) =
      walk L imageMap ?st (mid @ c # rest)"
    by (simp add: walk_step_image)
  have "map Ability.Name (abilities (walk L imageMap ?st (mid @ c # rest))) =
      map Ability.Name (abilities ?st) @
        take (nat (4 - abilityIndex ?st)) (?F (mid @ c # rest))"
    by (rule walk_names_seen) simp
  also have "?F (mid @ c # rest) = ?F mid @ strings_TrimSpace c # ?F rest"
    using assms(3) by simp
  finally have names: "map Ability.Name (abilities (walk L imageMap ?st (mid @ c # rest))) =
      map Ability.Name (abilities ?st) @
        take (nat (4 - abilityIndex ?st)) (?F mid @ strings_TrimSpace c # ?F rest)" .
  from assms(2) have "length (?F mid) < nat (4 - abilityIndex ?st)" by simp
  from take_mem_after [OF this] show ?thesis unfolding w names by simp
qed
section \<open>Facts about cleanDescription\<close>

lemma strings_Contains_iff: "strings_Contains s f \<longleftrightarrow> (\<exists>j. prefix f (drop j s))"
proof
  assume "strings_Contains s f"
  then obtain i where "strings_Index s f = Some i" by (auto simp: strings_Contains_def)
  from strings_Index_Some [OF this] show "\<exists>j. prefix f (drop j s)" by blast
next
  assume "\<exists>j. prefix f (drop j s)"
  then show "strings_Contains s f"
    using strings_Index_None [of s f] by (auto simp: strings_Contains_def)
qed

lemma prefix_drop_mono:
  assumes "prefix d' d" and "prefix f (drop j d')"
  shows "prefix f (drop j d)"
proof -
  from assms(1) obtain e where "d = d' @ e" by (auto simp: prefix_def)
  then have "prefix (drop j d') (drop j d)" by simp
  with assms(2) show ?thesis by (rule prefix_order.trans)
qed

lemma strings_Contains_mono: "prefix d' d \<Longrightarrow> strings_Contains d' f \<Longrightarrow> strings_Contains d f"
  by (auto simp: strings_Contains_iff dest: prefix_drop_mono)

lemma cutFooter_prefix: "prefix (cutFooter d f) d"
  by (simp add: cutFooter_def take_is_prefix split: option.splits)

lemma cutFooter_cases:
  "(strings_Index d f = Some (Suc i) \<longrightarrow> cutFooter d f = take (Suc i) d) \<and>
   (strings_Index d f = None \<or> strings_Index d f = Some 0 \<longrightarrow> cutFooter d f = d)"
  by (auto simp: cutFooter_def strings_Contains_def)

lemma cutFooter_onlyAtStart:
  assumes "f \<noteq> []"
  shows "onlyAtStart f (cutFooter d f)"
proof (cases "strings_Index d f")
  case None
  then have "\<not> strings_Contains d f" by (simp add: strings_Contains_def)
  with None show ?thesis by (simp add: onlyAtStart_def cutFooter_def)
next
  case (Some k)
  show ?thesis
  proof (cases k)
    case 0
    with Some strings_Index_Some [OF Some] show ?thesis
      by (simp add: onlyAtStart_def cutFooter_def)
  next
    case (Suc i)
    with Some have cut: "cutFooter d f = take (Suc i) d"
      by (simp add: cutFooter_cases)
    have "\<not> strings_Contains (take (Suc i) d) f"
    proof
      assume "strings_Contains (take (Suc i) d) f"
      then obtain j where j: "prefix f (drop j (take (Suc i) d))"
        by (auto simp: strings_Contains_iff)
      with assms have "drop j (take (Suc i) d) \<noteq> []" by auto
      then have "j < Suc i" by (cases "j < Suc i") simp_all
      moreover from j have "prefix f (drop j d)"
        by (rule prefix_drop_mono [OF take_is_prefix])
      ultimately show False using strings_Index_Some [OF Some] Suc by blast
    qed
    with cut show ?thesis by (simp add: onlyAtStart_def)
  qed
qed

lemma onlyAtStart_prefix:
  assumes "onlyAtStart f d" and "prefix d' d" and "f \<noteq> []"
  shows "onlyAtStart f d'"
  unfolding onlyAtStart_def
proof
  assume c: "strings_Contains d' f"
  with assms(2) have "strings_Contains d f" by (rule strings_Contains_mono)
  with assms(1) have pf: "prefix f d" by (simp add: onlyAtStart_def)
  from c obtain j where "prefix f (drop j d')" by (auto simp: strings_Contains_iff)
  then have "length f \<le> length (drop j d')" by (rule prefix_length_le)
  then have "length f \<le> length d'" by simp
  with pf assms(2) show "prefix f d'" by (rule prefix_length_prefix)
qed

lemma foldl_cutFooter:
  "prefix (foldl cutFooter d fs) d \<and>
   (\<forall>f\<in>set fs. f \<noteq> [] \<longrightarrow> onlyAtStart f (foldl cutFooter d fs))"
proof (induction fs rule: rev_induct)
  case Nil
  show ?case by simp
next
  case (snoc f fs)
  let ?r = "foldl cutFooter d fs"
  have p: "prefix (cutFooter ?r f) ?r" by (rule cutFooter_prefix)
  with snoc have "prefix (cutFooter ?r f) d" by (auto intro: prefix_order.trans)
  moreover have "onlyAtStart g (cutFooter ?r f)" if "g \<in> set fs" "g \<noteq> []" for g
    using snoc that p by (auto intro: onlyAtStart_prefix)
  moreover have "f \<noteq> [] \<longrightarrow> onlyAtStart f (cutFooter ?r f)"
    by (simp add: cutFooter_onlyAtStart)
  ultimately show ?case by auto
qed

lemma trim_left_suffix: "\<exists>a. s = a @ trim_left s"
proof (induction s rule: trim_left.induct)
  case (1 s)
  show ?case
  proof (cases "space_len s = 0")
    case True
    then have "trim_left s = s" by (subst trim_left.simps) simp
    then have "s = [] @ trim_left s" by simp
    then show ?thesis by (rule exI)
  next
    case False
    with 1 obtain a where a: "drop (space_len s) s = a @ trim_left (drop (space_len s) s)"
      by blast
    from False have "trim_left s = trim_left (drop (space_len s) s)"
      by (subst trim_left.simps) simp
    then have eq: "drop (space_len s) s = a @ trim_left s"
      by (subst a) (simp only:)
    have "s = take (space_len s) s @ drop (space_len s) s" by simp
    also have "\<dots> = (take (space_len s) s @ a) @ trim_left s" by (simp only: eq append_assoc)
    finally show ?thesis by (rule exI)
  qed
qed

lemma trim_right_rev_suffix: "\<exists>b. s = b @ trim_right_rev s"
proof (induction s rule: trim_right_rev.induct)
  case (1 s)
  show ?case
  proof (cases "space_len_last s = 0")
    case True
    then have "trim_right_rev s = s" by (subst trim_right_rev.simps) simp
    then have "s = [] @ trim_right_rev s" by simp
    then show ?thesis by (rule exI)
  next
    case False
    with 1 obtain b where
      b: "drop (space_len_last s) s = b @ trim_right_rev (drop (space_len_last s) s)"
      by blast
    from False have "trim_right_rev s = trim_right_rev (drop (space_len_last s) s)"
      by (subst trim_right_rev.simps) simp
    then have eq: "drop (space_len_last s) s = b @ trim_right_rev s"
      by (subst b) (simp only:)
    have "s = take (space_len_last s) s @ drop (space_len_last s) s" by simp
    also have "\<dots> = (take (space_len_last s) s @ b) @ trim_right_rev s"
      by (simp only: eq append_assoc)
    finally show ?thesis by (rule exI)
  qed
qed

lemma strings_TrimSpace_prefix: "prefix (strings_TrimSpace s) (trim_left s)"
proof -
  obtain b where b: "rev (trim_left s) = b @ trim_right_rev (rev (trim_left s))"
    using trim_right_rev_suffix by blast
  have "trim_left s = rev (rev (trim_left s))" by simp
  also have "\<dots> = rev (b @ trim_right_rev (rev (trim_left s)))"
    by (rule arg_cong [OF b])
  also have "\<dots> = strings_TrimSpace s @ rev b"
    by (simp add: strings_TrimSpace_def)
  finally show ?thesis by (rule prefixI)
qed

lemma strings_TrimSpace_substring: "\<exists>a b. s = a @ strings_TrimSpace s @ b"
proof -
  obtain a where a: "s = a @ trim_left s" using trim_left_suffix by blast
  from strings_TrimSpace_prefix [of s] obtain b where b: "trim_left s = strings_TrimSpace s @ b"
    by (auto simp: prefix_def)
  have "a @ trim_left s = a @ strings_TrimSpace s @ b" by (simp only: b)
  with a have "s = a @ strings_TrimSpace s @ b" by (rule trans)
  then show ?thesis by blast
qed

lemma strings_Contains_substring:
  assumes "strings_Contains r f"
  shows "strings_Contains (a @ r @ b) f"
proof -
  from assms obtain j where j: "prefix f (drop j r)" by (auto simp: strings_Contains_iff)
  have "drop (length a + j) (a @ r @ b) = drop j r @ drop (j - length r) b" by simp
  with j have "prefix f (drop (length a + j) (a @ r @ b))" by (simp add: prefix_prefix)
  then show ?thesis unfolding strings_Contains_iff by blast
qed

lemma space_len_prefix:
  assumes "prefix f r" and "3 \<le> length f"
  shows "space_len r = space_len f"
proof -
  from assms(2) obtain a b c f' where f: "f = a # b # c # f'"
    by (cases f; cases "tl f"; cases "tl (tl f)") auto
  with assms(1) obtain e where "r = a # b # c # (f' @ e)" by (auto simp: prefix_def)
  with f show ?thesis by simp
qed

lemma descFooterPatterns_shape:
  "f \<in> set descFooterPatterns \<Longrightarrow> 3 \<le> length f \<and> space_len f = 0"
  by (auto simp: descFooterPatterns_def copyright_def ascii_space_def)

lemma strings_TrimSpace_onlyAtStart:
  assumes "onlyAtStart f d" and "3 \<le> length f" and "space_len f = 0"
  shows "onlyAtStart f (strings_TrimSpace d)"
  unfolding onlyAtStart_def
proof
  assume c: "strings_Contains (strings_TrimSpace d) f"
  obtain a b where ab: "d = a @ strings_TrimSpace d @ b"
    using strings_TrimSpace_substring by blast
  from c have "strings_Contains (a @ strings_TrimSpace d @ b) f"
    by (rule strings_Contains_substring)
  with ab [symmetric] have "strings_Contains d f" by simp
  with assms(1) have pf: "prefix f d" by (simp add: onlyAtStart_def)
  with assms(2,3) have "space_len d = 0" by (simp add: space_len_prefix)
  then have "trim_left d = d" by (subst trim_left.simps) simp
  with strings_TrimSpace_prefix [of d] have "prefix (strings_TrimSpace d) d" by simp
  moreover from assms(2) have "f \<noteq> []" by auto
  ultimately have "onlyAtStart f (strings_TrimSpace d)"
    using assms(1) by (auto intro: onlyAtStart_prefix)
  with c show "prefix f (strings_TrimSpace d)" by (simp add: onlyAtStart_def)
qed

lemma cleanDescription_onlyAtStart:
  assumes "f \<in> set descFooterPatterns"
  shows "onlyAtStart f (cleanDescription desc)"
proof -
  from descFooterPatterns_shape [OF assms] have s: "3 \<le> length f" "space_len f = 0"
    by simp_all
  then have "f \<noteq> []" by auto
  with foldl_cutFooter assms have "onlyAtStart f (foldl cutFooter d descFooterPatterns)" for d
    by blast
  then show ?thesis
    by (simp add: cleanDescription_def Let_def strings_TrimSpace_onlyAtStart s)
qed

lemma cutFooter_first_occurrence:
  "(prefix f (drop i d) \<and> (\<forall>j<i. \<not> prefix f (drop j d)) \<and> 0 < i \<longrightarrow>
      cutFooter d f = take i d) \<and>
   ((\<forall>j. \<not> prefix f (drop j d)) \<or> prefix f d \<longrightarrow> cutFooter d f = d)"
proof (intro conjI impI)
  assume a: "prefix f (drop i d) \<and> (\<forall>j<i. \<not> prefix f (drop j d)) \<and> 0 < i"
  then have "strings_Index d f = Some i" by (intro strings_Index_eq_Some) simp_all
  moreover from a obtain i' where "i = Suc i'" by (cases i) auto
  ultimately show "cutFooter d f = take i d"
    using cutFooter_cases [of d f i'] by simp
next
  assume "(\<forall>j. \<not> prefix f (drop j d)) \<or> prefix f d"
  then have "strings_Index d f = None \<or> strings_Index d f = Some 0"
  proof
    assume "\<forall>j. \<not> prefix f (drop j d)"
    then have "strings_Index d f = None" by (rule strings_Index_eq_None)
    then show ?thesis by simp
  next
    assume "prefix f d"
    then have "strings_Index d f = Some 0" by (intro strings_Index_eq_Some) simp_all
    then show ?thesis by simp
  qed
  then show "cutFooter d f = d" using cutFooter_cases [of d f 0] by blast
qed

lemma foldl_rounds:
  "\<exists>ds. length ds = Suc (length ps) \<and> hd ds = d0 \<and> last ds = foldl r d0 ps \<and>
        (\<forall>k<length ps. ds ! Suc k = r (ds ! k) (ps ! k))"
proof (induction ps arbitrary: d0)
  case Nil
  have "length [d0] = Suc (length []) \<and> hd [d0] = d0 \<and> last [d0] = foldl r d0 [] \<and>
        (\<forall>k<length []. [d0] ! Suc k = r ([d0] ! k) ([] ! k))" by simp
  then show ?case by blast
next
  case (Cons p ps)
  from Cons [of "r d0 p"] obtain ds where ds: "length ds = Suc (length ps)"
    "hd ds = r d0 p" "last ds = foldl r (r d0 p) ps"
    "\<forall>k<length ps. ds ! Suc k = r (ds ! k) (ps ! k)" by blast
  from ds(1) have ne: "ds \<noteq> []" by auto
  have step: "(d0 # ds) ! Suc k = r ((d0 # ds) ! k) ((p # ps) ! k)" if "k < length (p # ps)" for k
  proof (cases k)
    case 0
    with ds(2) ne show ?thesis by (simp add: hd_conv_nth)
  next
    case (Suc k')
    with that ds(4) show ?thesis by simp
  qed
  have "length (d0 # ds) = Suc (length (p # ps)) \<and> hd (d0 # ds) = d0 \<and>
        last (d0 # ds) = foldl r d0 (p # ps) \<and>
        (\<forall>k<length (p # ps). (d0 # ds) ! Suc k = r ((d0 # ds) ! k) ((p # ps) ! k))"
    using ds(1,3) ne step by simp
  then show ?case by blast
qed
section \<open>Facts about the matcher and the expression of extractRole\<close>

lemma rmatch_Seq_Nil:
  "\<forall>x\<in>set (rmatch a st). rmatch b x = [] \<Longrightarrow> rmatch (Seq a b) st = []"
  by (induction "rmatch a st") (auto simp: concat_eq_Nil_conv)

lemma rmatch_Seq_first:
  assumes "rmatch a st = x # xs" and "rest_len x \<le> rest_len st" and "rmatch b x = y # ys"
  shows "\<exists>zs. rmatch (Seq a b) st = y # zs"
  using assms by simp

lemma rmatch_Seq_unfold:
  "rmatch (Seq a b) (p, s, g) =
     concat (map (\<lambda>st'. if rest_len st' \<le> length s then rmatch b st' else [])
                 (rmatch a (p, s, g)))"
  by simp

lemma rmatch_Seq_single:
  assumes "rmatch a st = [x]" and "rest_len x \<le> rest_len st"
  shows "rmatch (Seq a b) st = rmatch b x"
  using assms by simp

lemma rmatch_Star_Cls_step:
  assumes "in_cls k c"
  shows "rmatch (Star (Cls k) True) (p, c # s, g) =
     rmatch (Star (Cls k) True) (Some c, s, g) @ [(p, c # s, g)]"
  using assms by simp

lemma rmatch_Star_Cls_stop:
  assumes "s = [] \<or> \<not> in_cls k (hd s)"
  shows "rmatch (Star (Cls k) True) (p, s, g) = [(p, s, g)]"
  using assms by (cases s) auto

lemma rmatch_Star_Cls_greedy:
  assumes "list_all (in_cls k) w" and "t = [] \<or> \<not> in_cls k (hd t)"
  shows "\<exists>zs. rmatch (Star (Cls k) True) (p, w @ t, g) =
     ((if w = [] then p else Some (last w)), t, g) # zs"
  using assms
proof (induction w arbitrary: p)
  case Nil
  then show ?case by (simp add: rmatch_Star_Cls_stop del: rmatch.simps)
next
  case (Cons c w)
  then obtain zs where "rmatch (Star (Cls k) True) (Some c, w @ t, g) =
     ((if w = [] then Some c else Some (last w)), t, g) # zs"
    by force
  with Cons.prems show ?case
    by (simp add: rmatch_Star_Cls_step del: rmatch.simps)
qed

lemma rmatch_Star_Cls_results:
  assumes "(p', s', g') \<in> set (rmatch (Star (Cls k) True) (p, s, g))"
  shows "g' = g \<and> (\<exists>u. s = u @ s' \<and> list_all (in_cls k) u)"
  using assms
proof (induction s arbitrary: p)
  case Nil
  then show ?case by (simp add: rmatch_Star_Cls_stop del: rmatch.simps)
next
  case (Cons c s)
  show ?case
  proof (cases "in_cls k c")
    case True
    from Cons.prems have "(p', s', g') \<in> set (rmatch (Star (Cls k) True) (Some c, s, g)) \<or>
        (p', s', g') = (p, c # s, g)"
      by (auto simp add: rmatch_Star_Cls_step [OF True] simp del: rmatch.simps)
    then show ?thesis
    proof
      assume "(p', s', g') \<in> set (rmatch (Star (Cls k) True) (Some c, s, g))"
      from Cons.IH [OF this] obtain u where "g' = g" "s = u @ s'" "list_all (in_cls k) u"
        by blast
      with True have "c # s = (c # u) @ s'" "list_all (in_cls k) (c # u)" by simp_all
      with \<open>g' = g\<close> show ?thesis by blast
    next
      assume "(p', s', g') = (p, c # s, g)"
      then show ?thesis by simp
    qed
  next
    case False
    with Cons.prems show ?thesis by (simp add: rmatch_Star_Cls_stop del: rmatch.simps)
  qed
qed


declare rmatch.simps [simp del]

text \<open>The pieces of roleRe after the label.\<close>

lemma nl_not_prefix:
  assumes "s = [] \<or> hd s \<noteq> nl"
  shows "rmatch (Seq (Lit [nl]) b) (p, s, g) = []"
proof -
  from assms have "rmatch (Lit [nl]) (p, s, g) = []"
    by (cases s) (auto simp: rmatch.simps(1))
  then show ?thesis by (simp add: rmatch.simps(3))
qed

lemma rmatch_line_group:
  assumes "v \<noteq> []" and "nl \<notin> set v" and "rest = [] \<or> hd rest = nl"
  shows "\<exists>zs. rmatch (Seq (Grp 1 (Plus (Cls AnyNotNL) True)) EndLine) (p, v @ rest, g) =
     (Some (last v), rest, (1, v) # g) # zs"
proof -
  from assms(1) obtain c v' where v: "v = c # v'" by (cases v) auto
  with assms(2) have c: "in_cls AnyNotNL c" and v': "list_all (in_cls AnyNotNL) v'"
    by (auto simp: list_all_iff)
  from assms(3) have "rest = [] \<or> \<not> in_cls AnyNotNL (hd rest)" by auto
  from rmatch_Star_Cls_greedy [OF v' this, of "Some c" g]
  obtain zs where star: "rmatch (Star (Cls AnyNotNL) True) (Some c, v' @ rest, g) =
     ((if v' = [] then Some c else Some (last v')), rest, g) # zs" by blast
  have cls: "rmatch (Cls AnyNotNL) (p, v @ rest, g) = [(Some c, v' @ rest, g)]"
    using v c by (simp add: rmatch.simps(2))
  have "rmatch (Plus (Cls AnyNotNL) True) (p, v @ rest, g) =
      rmatch (Star (Cls AnyNotNL) True) (Some c, v' @ rest, g)"
    unfolding Plus_def by (rule rmatch_Seq_single [OF cls]) (simp add: v)
  with star v have plus: "rmatch (Plus (Cls AnyNotNL) True) (p, v @ rest, g) =
      (Some (last v), rest, g) # zs" by simp
  have grp: "rmatch (Grp 1 (Plus (Cls AnyNotNL) True)) (p, v @ rest, g) =
      (Some (last v), rest, (1, v) # g) #
      map (\<lambda>(p', s', g'). (p', s', (1, take (length (v @ rest) - length s') (v @ rest)) # g')) zs"
    by (simp add: plus rmatch.simps(5))
  have "rmatch EndLine (Some (last v), rest, (1, v) # g) = [(Some (last v), rest, (1, v) # g)]"
    using assms(3) by (auto simp: rmatch.simps(9))
  with grp show ?thesis
    by (intro rmatch_Seq_first [where ys = "[]"]) simp_all
qed


lemma rmatch_value_line:
  assumes "list_all (in_cls Space) w" and "v \<noteq> []" and "\<not> in_cls Space (hd v)"
    and "nl \<notin> set v" and "rest = [] \<or> hd rest = nl"
  shows "\<exists>zs. rmatch (Seq (Star (Cls Space) True)
                  (Seq (Grp 1 (Plus (Cls AnyNotNL) True)) EndLine)) (p, w @ v @ rest, g) =
     (Some (last v), rest, (1, v) # g) # zs"
proof -
  from assms(2,3) have "v @ rest = [] \<or> \<not> in_cls Space (hd (v @ rest))" by simp
  from rmatch_Star_Cls_greedy [OF assms(1) this, of p g]
  obtain xs where star: "rmatch (Star (Cls Space) True) (p, w @ v @ rest, g) =
     ((if w = [] then p else Some (last w)), v @ rest, g) # xs" by blast
  from rmatch_line_group [OF assms(2,4,5)]
  obtain ys where grp: "rmatch (Seq (Grp 1 (Plus (Cls AnyNotNL) True)) EndLine)
     ((if w = [] then p else Some (last w)), v @ rest, g) =
     (Some (last v), rest, (1, v) # g) # ys" by blast
  show ?thesis
    by (rule rmatch_Seq_first [OF star _ grp]) simp
qed

lemma star_results_no_nl:
  assumes "(p', s', g') \<in> set (rmatch (Star (Cls Space) True) (p, w @ t, g))"
    and "nl \<notin> set w" and "t = [] \<or> \<not> in_cls Space (hd t)"
  shows "s' = [] \<or> hd s' \<noteq> nl"
proof -
  from rmatch_Star_Cls_results [OF assms(1)]
  obtain u where u: "w @ t = u @ s'" "list_all (in_cls Space) u" by blast
  from u(1) consider us where "u = w @ us" "us @ s' = t" | us where "u @ us = w" "s' = us @ t"
    by (auto simp: append_eq_append_conv2)
  then show ?thesis
  proof cases
    case 1
    show ?thesis
    proof (cases us)
      case Nil
      with 1 assms(3) show ?thesis by auto
    next
      case (Cons a as)
      with 1 u(2) have "in_cls Space (hd t)" by auto
      with 1 Cons assms(3) show ?thesis by auto
    qed
  next
    case 2
    show ?thesis
    proof (cases us)
      case Nil
      with 2 assms(3) show ?thesis by auto
    next
      case (Cons a as)
      with 2 have "hd s' \<in> set w" by auto
      with assms(2) show ?thesis by metis
    qed
  qed
qed

lemma rmatch_label_space:
  assumes "list_all (in_cls Space) w" and "nl \<in> set w"
    and "v \<noteq> []" and "\<not> in_cls Space (hd v)" and "nl \<notin> set v"
    and "rest = [] \<or> hd rest = nl" and "length (w @ v @ rest) \<le> n"
  shows "\<exists>zs. concat (map (\<lambda>st'. if rest_len st' \<le> n
              then rmatch (Seq (Lit [nl]) (Seq (Star (Cls Space) True)
                     (Seq (Grp 1 (Plus (Cls AnyNotNL) True)) EndLine))) st'
              else [])
            (rmatch (Star (Cls Space) True) (p, w @ v @ rest, g))) =
     (Some (last v), rest, (1, v) # g) # zs"
  using assms(1,2,7)
proof (induction w arbitrary: p)
  case Nil
  then show ?case by simp
next
  case (Cons c w)
  let ?R4 = "Seq (Star (Cls Space) True) (Seq (Grp 1 (Plus (Cls AnyNotNL) True)) EndLine)"
  let ?F = "\<lambda>st'. if rest_len st' \<le> n then rmatch (Seq (Lit [nl]) ?R4) st' else []"
  let ?L = "rmatch (Star (Cls Space) True) (Some c, w @ v @ rest, g)"
  from Cons.prems have c: "in_cls Space c" and w: "list_all (in_cls Space) w"
    by (simp_all del: in_cls.simps)
  have step: "rmatch (Star (Cls Space) True) (p, (c # w) @ v @ rest, g) =
      ?L @ [(p, c # w @ v @ rest, g)]"
    using rmatch_Star_Cls_step [OF c] by simp
  show ?case
  proof (cases "nl \<in> set w")
    case True
    from Cons.prems have "length (w @ v @ rest) \<le> n" by simp
    from Cons.IH [OF w True this, of "Some c"]
    obtain zs where "concat (map ?F ?L) = (Some (last v), rest, (1, v) # g) # zs" by blast
    then show ?thesis unfolding step by simp
  next
    case False
    with Cons.prems have cnl: "c = nl" by simp
    from assms(3,4) have t: "v @ rest = [] \<or> \<not> in_cls Space (hd (v @ rest))" by simp
    have "?F st' = []" if "st' \<in> set ?L" for st'
    proof -
      obtain p' s' g' where st': "st' = (p', s', g')" by (cases st') auto
      from star_results_no_nl [OF that [unfolded st'] False t]
      show ?thesis unfolding st' by (simp add: nl_not_prefix)
    qed
    then have none: "concat (map ?F ?L) = []" by (simp add: concat_eq_Nil_conv)
    have "rmatch (Lit [nl]) (p, c # w @ v @ rest, g) = [(Some nl, w @ v @ rest, g)]"
      using cnl by (simp add: rmatch.simps(1))
    then have "rmatch (Seq (Lit [nl]) ?R4) (p, c # w @ v @ rest, g) =
        rmatch ?R4 (Some nl, w @ v @ rest, g)"
      by (rule rmatch_Seq_single) simp
    moreover from rmatch_value_line [OF w assms(3,4,5,6), of "Some nl" g]
    obtain zs where "rmatch ?R4 (Some nl, w @ v @ rest, g) =
        (Some (last v), rest, (1, v) # g) # zs" by blast
    ultimately have last: "?F (p, c # w @ v @ rest, g) = (Some (last v), rest, (1, v) # g) # zs"
      using Cons.prems by simp
    have "concat (map ?F (?L @ [(p, c # w @ v @ rest, g)])) =
        concat (map ?F ?L) @ ?F (p, c # w @ v @ rest, g)"
      by simp
    also have "\<dots> = [] @ (Some (last v), rest, (1, v) # g) # zs"
      by (simp only: none last)
    finally have "concat (map ?F (?L @ [(p, c # w @ v @ rest, g)])) =
        (Some (last v), rest, (1, v) # g) # zs"
      by (simp only: append_Nil)
    then show ?thesis unfolding step by (rule exI)
  qed
qed

lemma rmatch_roleRe:
  assumes "p = None \<or> p = Some nl"
    and "list_all (in_cls Space) w" and "nl \<in> set w"
    and "v \<noteq> []" and "\<not> in_cls Space (hd v)" and "nl \<notin> set v"
    and "rest = [] \<or> hd rest = nl"
  shows "\<exists>zs. rmatch roleRe (p, ''ROLE'' @ w @ v @ rest, []) =
     (Some (last v), rest, [(1, v)]) # zs"
proof -
  let ?R3 = "Seq (Lit [nl]) (Seq (Star (Cls Space) True)
                     (Seq (Grp 1 (Plus (Cls AnyNotNL) True)) EndLine))"
  let ?R2 = "Seq (Star (Cls Space) True) ?R3"
  let ?s = "w @ v @ rest"
  have "rmatch BeginLine (p, ''ROLE'' @ ?s, []) = [(p, ''ROLE'' @ ?s, [])]"
    using assms(1) by (auto simp: rmatch.simps(8))
  then have "rmatch roleRe (p, ''ROLE'' @ ?s, []) =
      rmatch (Seq (Lit ''ROLE'') ?R2) (p, ''ROLE'' @ ?s, [])"
    unfolding roleRe_def cat.simps by (rule rmatch_Seq_single) simp
  also have "rmatch (Lit ''ROLE'') (p, ''ROLE'' @ ?s, []) = [(Some CHR ''E'', ?s, [])]"
    by (simp add: rmatch.simps(1))
  then have "rmatch (Seq (Lit ''ROLE'') ?R2) (p, ''ROLE'' @ ?s, []) =
      rmatch ?R2 (Some CHR ''E'', ?s, [])"
    by (rule rmatch_Seq_single) simp
  also have "\<exists>zs. rmatch ?R2 (Some CHR ''E'', ?s, []) = (Some (last v), rest, [(1, v)]) # zs"
    by (subst rmatch_Seq_unfold) (rule rmatch_label_space [OF assms(2-7)], simp)
  finally show ?thesis .
qed


lemma rmatch_roleRe_Nil:
  assumes "\<not> ((p = None \<or> p = Some nl) \<and> prefix ''ROLE'' s)"
  shows "rmatch roleRe (p, s, []) = []"
proof (cases "p = None \<or> p = Some nl")
  case False
  then have "rmatch BeginLine (p, s, []) = []" by (simp add: rmatch.simps(8))
  then show ?thesis unfolding roleRe_def cat.simps by (simp add: rmatch_Seq_Nil)
next
  case True
  with assms have "rmatch (Lit ''ROLE'') (p, s, []) = []" by (simp add: rmatch.simps(1))
  then have inner: "rmatch (Seq (Lit ''ROLE'') b) (p, s, []) = []" for b
    by (simp add: rmatch_Seq_Nil)
  from True have "rmatch BeginLine (p, s, []) = [(p, s, [])]"
    by (auto simp: rmatch.simps(8))
  then have "rmatch (Seq BeginLine (Seq (Lit ''ROLE'') b)) (p, s, []) =
      rmatch (Seq (Lit ''ROLE'') b) (p, s, [])" for b
    by (rule rmatch_Seq_single) simp
  then show ?thesis unfolding roleRe_def cat.simps by (simp only: inner)
qed

lemma prefix_label_line:
  assumes "prefix ''ROLE'' (l @ nl # s)" and "nl \<notin> set l"
  shows "prefix ''ROLE'' l"
proof -
  from assms(1) have "prefix ''ROLE'' l \<or> (\<exists>us. prefix us (nl # s) \<and> ''ROLE'' = l @ us)"
    by (auto simp: prefix_append)
  then show ?thesis
  proof
    assume "\<exists>us. prefix us (nl # s) \<and> ''ROLE'' = l @ us"
    then obtain us where us: "prefix us (nl # s)" "''ROLE'' = l @ us" by blast
    show ?thesis
    proof (cases us)
      case Nil
      with us(2) show ?thesis by simp
    next
      case (Cons a as)
      with us(1) have "a = nl" by simp
      with Cons us(2) have "nl \<in> set ''ROLE''" by (metis in_set_conv_decomp)
      then show ?thesis by simp
    qed
  qed
qed

text \<open>The search passes over a line that does not start with the label.\<close>

lemma re_search_roleRe_line:
  assumes "nl \<notin> set l" and "(p = None \<or> p = Some nl) \<longrightarrow> \<not> prefix ''ROLE'' l"
  shows "re_search roleRe p (l @ nl # s) =
     map_option (\<lambda>(pre, m). (l @ nl # pre, m)) (re_search roleRe (Some nl) s)"
  using assms
proof (induction l arbitrary: p)
  case Nil
  have "rmatch roleRe (p, nl # s, []) = []"
    by (rule rmatch_roleRe_Nil) simp
  then show ?case by simp
next
  case (Cons c l)
  have "\<not> ((p = None \<or> p = Some nl) \<and> prefix ''ROLE'' ((c # l) @ nl # s))"
    using Cons.prems prefix_label_line [of "c # l" s] by blast
  then have none: "rmatch roleRe (p, c # l @ nl # s, []) = []"
    using rmatch_roleRe_Nil by simp
  from Cons.prems have "c \<noteq> nl" "nl \<notin> set l" by auto
  then have "re_search roleRe (Some c) (l @ nl # s) =
     map_option (\<lambda>(pre, m). (l @ nl # pre, m)) (re_search roleRe (Some nl) s)"
    by (intro Cons.IH) simp_all
  with none show ?case
    by (cases "re_search roleRe (Some nl) s") auto
qed

lemma re_search_roleRe_last_line:
  assumes "nl \<notin> set l" and "(p = None \<or> p = Some nl) \<longrightarrow> \<not> prefix ''ROLE'' l"
  shows "re_search roleRe p l = None"
  using assms
proof (induction l arbitrary: p)
  case Nil
  have "rmatch roleRe (p, [], []) = []" by (rule rmatch_roleRe_Nil) simp
  then show ?case by simp
next
  case (Cons c l)
  from Cons.prems have none: "rmatch roleRe (p, c # l, []) = []"
    by (intro rmatch_roleRe_Nil) blast
  from Cons.prems have "c \<noteq> nl" "nl \<notin> set l" by auto
  then have "re_search roleRe (Some c) l = None" by (intro Cons.IH) simp_all
  with none show ?case by simp
qed

lemma strings_Split_line:
  "nl \<notin> set l \<Longrightarrow> strings_Split (l @ nl # s) nl = l # strings_Split s nl"
  by (induction l) auto

lemma strings_Split_last_line: "nl \<notin> set l \<Longrightarrow> strings_Split l nl = [l]"
  by (induction l) auto

lemma re_search_roleRe_None:
  assumes "\<forall>l\<in>set (strings_Split s nl). \<not> prefix ''ROLE'' l"
  shows "re_search roleRe p s = None"
  using assms
proof (induction s arbitrary: p rule: length_induct)
  case (1 s)
  show ?case
  proof (cases "nl \<in> set s")
    case False
    with "1.prems" show ?thesis
      by (intro re_search_roleRe_last_line) (simp_all add: strings_Split_last_line)
  next
    case True
    then obtain l s' where s: "s = l @ nl # s'" "nl \<notin> set l"
      by (auto dest: split_list_first)
    with "1.prems" have l: "\<not> prefix ''ROLE'' l" and rest: "\<forall>l\<in>set (strings_Split s' nl). \<not> prefix ''ROLE'' l"
      by (simp_all add: strings_Split_line)
    from s have "length s' < length s" by simp
    with "1.IH" rest have "re_search roleRe (Some nl) s' = None" by blast
    with s l show ?thesis by (simp add: re_search_roleRe_line)
  qed
qed

lemma re_search_roleRe_before:
  assumes "\<forall>l\<in>set before. nl \<notin> set l \<and> \<not> prefix ''ROLE'' l"
    and "p = None \<or> p = Some nl"
    and "\<And>q. q = None \<or> q = Some nl \<Longrightarrow> \<exists>zs. rmatch roleRe (q, s, []) = m # zs"
  shows "\<exists>pre. re_search roleRe p (concat (map (\<lambda>l. l @ [nl]) before) @ s) = Some (pre, m)"
  using assms(1,2)
proof (induction before arbitrary: p)
  case Nil
  from assms(3) [OF Nil.prems(2)] obtain zs where "rmatch roleRe (p, s, []) = m # zs" by blast
  then show ?case by (cases s) simp_all
next
  case (Cons l before)
  from Cons.prems have l: "nl \<notin> set l" "\<not> prefix ''ROLE'' l" by simp_all
  from Cons.prems have "\<forall>l\<in>set before. nl \<notin> set l \<and> \<not> prefix ''ROLE'' l" by simp
  from Cons.IH [OF this, of "Some nl"] obtain pre where
    "re_search roleRe (Some nl) (concat (map (\<lambda>l. l @ [nl]) before) @ s) = Some (pre, m)"
    by blast
  with l show ?case by (simp add: re_search_roleRe_line)
qed

text \<open>The search passes over every line that is not a label line.\<close>

lemma rmatch_Seq_mem:
  assumes "x \<in> set (rmatch (Seq a b) st)"
  shows "\<exists>y\<in>set (rmatch a st). x \<in> set (rmatch b y)"
  using assms by (auto simp: rmatch.simps(3) split: if_splits)

lemma rmatch_roleRe_no_value:
  assumes "list_all (in_cls Space) w" and "nl \<notin> set w" and "\<not> in_cls Space x"
  shows "rmatch roleRe (p, ''ROLE'' @ w @ x # t, []) = []"
proof (cases "p = None \<or> p = Some nl")
  case False
  then show ?thesis by (intro rmatch_roleRe_Nil) simp
next
  case True
  let ?R3 = "Seq (Lit [nl]) (Seq (Star (Cls Space) True)
                     (Seq (Grp 1 (Plus (Cls AnyNotNL) True)) EndLine))"
  let ?R2 = "Seq (Star (Cls Space) True) ?R3"
  let ?s = "w @ x # t"
  have "rmatch BeginLine (p, ''ROLE'' @ ?s, []) = [(p, ''ROLE'' @ ?s, [])]"
    using True by (auto simp: rmatch.simps(8))
  then have "rmatch roleRe (p, ''ROLE'' @ ?s, []) =
      rmatch (Seq (Lit ''ROLE'') ?R2) (p, ''ROLE'' @ ?s, [])"
    unfolding roleRe_def cat.simps by (rule rmatch_Seq_single) simp
  also have "rmatch (Lit ''ROLE'') (p, ''ROLE'' @ ?s, []) = [(Some CHR ''E'', ?s, [])]"
    by (simp add: rmatch.simps(1))
  then have "rmatch (Seq (Lit ''ROLE'') ?R2) (p, ''ROLE'' @ ?s, []) =
      rmatch ?R2 (Some CHR ''E'', ?s, [])"
    by (rule rmatch_Seq_single) simp
  also have "rmatch ?R2 (Some CHR ''E'', ?s, []) = []"
  proof (rule rmatch_Seq_Nil, rule ballI)
    fix st'
    assume m: "st' \<in> set (rmatch (Star (Cls Space) True) (Some CHR ''E'', ?s, []))"
    obtain p' s' g' where st': "st' = (p', s', g')" by (cases st') auto
    from assms(3) have "x # t = [] \<or> \<not> in_cls Space (hd (x # t))" by simp
    from star_results_no_nl [OF m [unfolded st'] assms(2) this]
    show "rmatch ?R3 st' = []" unfolding st' by (simp add: nl_not_prefix)
  qed
  finally show ?thesis .
qed

lemma non_space_split:
  assumes "\<not> list_all P r"
  shows "\<exists>w x r'. r = w @ x # r' \<and> list_all P w \<and> \<not> P x"
  using assms
proof (induction r)
  case Nil
  then show ?case by simp
next
  case (Cons a r)
  show ?case
  proof (cases "P a")
    case False
    then have "a # r = [] @ a # r \<and> list_all P [] \<and> \<not> P a" by simp
    then show ?thesis by blast
  next
    case True
    with Cons.prems have "\<not> list_all P r" by simp
    from Cons.IH [OF this] obtain w x r' where
      "r = w @ x # r'" "list_all P w" "\<not> P x" by blast
    with True have "a # r = (a # w) @ x # r' \<and> list_all P (a # w) \<and> \<not> P x" by simp
    then show ?thesis by blast
  qed
qed

lemma rmatch_roleRe_other_line:
  assumes "nl \<notin> set l" and "\<not> isLabelLine l" and "t = [] \<or> hd t = nl"
  shows "rmatch roleRe (p, l @ t, []) = []"
proof (cases "prefix ''ROLE'' l")
  case False
  have "\<not> prefix ''ROLE'' (l @ t)"
  proof (cases t)
    case Nil
    with False show ?thesis by simp
  next
    case (Cons c cs)
    with assms(3) have "t = nl # cs" by simp
    with False assms(1) show ?thesis using prefix_label_line [of l cs] by blast
  qed
  then show ?thesis by (intro rmatch_roleRe_Nil) simp
next
  case True
  then obtain r where l: "l = ''ROLE'' @ r" by (auto simp: prefix_def)
  with assms(2) True have "\<not> list_all (in_cls Space) r"
    by (simp add: isLabelLine_def)
  from non_space_split [OF this] obtain w x r' where
    r: "r = w @ x # r'" "list_all (in_cls Space) w" "\<not> in_cls Space x" by blast
  from assms(1) l r(1) have "nl \<notin> set w" by simp
  from rmatch_roleRe_no_value [OF r(2) this r(3), of p "r' @ t"]
  show ?thesis by (simp add: l r(1))
qed

lemma re_search_roleRe_skip_line:
  assumes "nl \<notin> set l" and "\<not> isLabelLine l"
  shows "re_search roleRe p (l @ nl # s) =
     map_option (\<lambda>(pre, m). (l @ nl # pre, m)) (re_search roleRe (Some nl) s)"
proof (cases l)
  case Nil
  have "rmatch roleRe (p, nl # s, []) = []" by (rule rmatch_roleRe_Nil) simp
  with Nil show ?thesis by simp
next
  case (Cons c l')
  from rmatch_roleRe_other_line [OF assms, of "nl # s" p]
  have none: "rmatch roleRe (p, c # l' @ nl # s, []) = []" by (simp add: Cons)
  from assms(1) Cons have "c \<noteq> nl" "nl \<notin> set l'" by auto
  then have "re_search roleRe (Some c) (l' @ nl # s) =
     map_option (\<lambda>(pre, m). (l' @ nl # pre, m)) (re_search roleRe (Some nl) s)"
    by (intro re_search_roleRe_line) simp_all
  with none show ?thesis unfolding Cons
    by (cases "re_search roleRe (Some nl) s") auto
qed

lemma re_search_roleRe_skip_last_line:
  assumes "nl \<notin> set l" and "\<not> isLabelLine l"
  shows "re_search roleRe p l = None"
proof (cases l)
  case Nil
  have "rmatch roleRe (p, [], []) = []" by (rule rmatch_roleRe_Nil) simp
  with Nil show ?thesis by simp
next
  case (Cons c l')
  from rmatch_roleRe_other_line [OF assms, of "[]" p]
  have none: "rmatch roleRe (p, c # l', []) = []" by (simp add: Cons)
  from assms(1) Cons have "c \<noteq> nl" "nl \<notin> set l'" by auto
  then have "re_search roleRe (Some c) l' = None"
    by (intro re_search_roleRe_last_line) simp_all
  with none show ?thesis unfolding Cons by simp
qed


lemma roleAt_skip_line:
  assumes "nl \<notin> set l" and "\<not> isLabelLine l"
  shows "roleAt p (l @ nl # s) = roleAt (Some nl) s"
  unfolding roleAt_def re_search_roleRe_skip_line [OF assms]
  by (cases "re_search roleRe (Some nl) s") auto

lemma roleAt_skip_last_line:
  assumes "nl \<notin> set l" and "\<not> isLabelLine l"
  shows "roleAt p l = []"
  unfolding roleAt_def re_search_roleRe_skip_last_line [OF assms] by simp

lemma roleAt_value:
  assumes "p = None \<or> p = Some nl"
    and "list_all (in_cls Space) w" and "nl \<in> set w"
    and "v \<noteq> []" and "\<not> in_cls Space (hd v)" and "nl \<notin> set v"
    and "rest = [] \<or> hd rest = nl"
  shows "roleAt p (''ROLE'' @ w @ v @ rest) = strings_TrimSpace v"
proof -
  from rmatch_roleRe [OF assms] obtain zs where
    "rmatch roleRe (p, ''ROLE'' @ w @ v @ rest, []) = (Some (last v), rest, [(1, v)]) # zs"
    by blast
  then have "rmatch roleRe (p, CHR ''R'' # ''OLE'' @ w @ v @ rest, []) =
      (Some (last v), rest, [(1, v)]) # zs" by simp
  then have "re_search roleRe p (CHR ''R'' # ''OLE'' @ w @ v @ rest) =
      Some ([], Some (last v), rest, [(1, v)])"
    by (simp only: re_search.simps list.case)
  then have "roleAt p (CHR ''R'' # ''OLE'' @ w @ v @ rest) = strings_TrimSpace v"
    by (simp add: roleAt_def submatch_def)
  then show ?thesis by simp
qed

text \<open>A label with nothing but white space after it, to the end of the text.\<close>

lemma re_search_roleRe_no_R:
  assumes "CHR ''R'' \<notin> set s"
  shows "re_search roleRe p s = None"
  using assms
proof (induction s arbitrary: p)
  case Nil
  have "rmatch roleRe (p, [], []) = []" by (rule rmatch_roleRe_Nil) simp
  then show ?case by simp
next
  case (Cons c s)
  from Cons.prems have "\<not> prefix ''ROLE'' (c # s)" by auto
  then have "rmatch roleRe (p, c # s, []) = []" by (intro rmatch_roleRe_Nil) simp
  moreover from Cons have "re_search roleRe (Some c) s = None" by simp
  ultimately show ?case by simp
qed

lemma rmatch_Cls_mem:
  assumes "(p', s', g') \<in> set (rmatch (Cls k) (p, s, g))"
  shows "g' = g"
  using assms by (cases s) (auto simp: rmatch.simps(2) split: if_splits)

lemma rmatch_roleRe_blank:
  assumes "list_all (in_cls Space) w"
    and "(p', s', g') \<in> set (rmatch roleRe (p, ''ROLE'' @ w, []))"
  shows "\<exists>v. g' = [(1, v)] \<and> list_all (in_cls Space) v"
proof -
  let ?G = "Grp 1 (Plus (Cls AnyNotNL) True)"
  let ?R5 = "Seq ?G EndLine"
  let ?R4 = "Seq (Star (Cls Space) True) ?R5"
  let ?R3 = "Seq (Lit [nl]) ?R4"
  let ?R2 = "Seq (Star (Cls Space) True) ?R3"
  let ?R1 = "Seq (Lit ''ROLE'') ?R2"
  from assms(2) have "(p', s', g') \<in> set (rmatch (Seq BeginLine ?R1) (p, ''ROLE'' @ w, []))"
    by (simp add: roleRe_def)
  from rmatch_Seq_mem [OF this] obtain y1 where
    "y1 \<in> set (rmatch BeginLine (p, ''ROLE'' @ w, []))" and m1: "(p', s', g') \<in> set (rmatch ?R1 y1)"
    by blast
  then have y1: "y1 = (p, ''ROLE'' @ w, [])"
    by (auto simp: rmatch.simps(8) split: if_splits)
  from rmatch_Seq_mem [OF m1] obtain y2 where
    "y2 \<in> set (rmatch (Lit ''ROLE'') y1)" and m2: "(p', s', g') \<in> set (rmatch ?R2 y2)"
    by blast
  then have y2: "y2 = (Some CHR ''E'', w, [])"
    unfolding y1 by (simp add: rmatch.simps(1))
  from rmatch_Seq_mem [OF m2] obtain y3 where
    m3': "y3 \<in> set (rmatch (Star (Cls Space) True) y2)" and m3: "(p', s', g') \<in> set (rmatch ?R3 y3)"
    by blast
  obtain p3 s3 g3 where y3: "y3 = (p3, s3, g3)" by (cases y3) auto
  from rmatch_Star_Cls_results [OF m3' [unfolded y2 y3]] obtain u3 where
    g3: "g3 = []" and u3: "w = u3 @ s3" by blast
  from u3 assms(1) have s3: "list_all (in_cls Space) s3" by (simp del: in_cls.simps)
  from rmatch_Seq_mem [OF m3] obtain y4 where
    "y4 \<in> set (rmatch (Lit [nl]) y3)" and m4: "(p', s', g') \<in> set (rmatch ?R4 y4)"
    by blast
  then have y4: "y4 = (Some nl, drop 1 s3, [])"
    unfolding y3 g3 by (simp add: rmatch.simps(1) split: if_splits)
  from rmatch_Seq_mem [OF m4] obtain y5 where
    m5': "y5 \<in> set (rmatch (Star (Cls Space) True) y4)" and m5: "(p', s', g') \<in> set (rmatch ?R5 y5)"
    by blast
  obtain p5 s5 g5 where y5: "y5 = (p5, s5, g5)" by (cases y5) auto
  from rmatch_Star_Cls_results [OF m5' [unfolded y4 y5]] obtain u5 where
    g5: "g5 = []" and u5: "drop 1 s3 = u5 @ s5" by blast
  have "set s5 \<subseteq> set (drop 1 s3)" unfolding u5 by simp
  also have "\<dots> \<subseteq> set s3" by (rule set_drop_subset)
  finally have s5: "list_all (in_cls Space) s5"
    using s3 unfolding list_all_iff by blast
  from rmatch_Seq_mem [OF m5] obtain y6 where
    m6': "y6 \<in> set (rmatch ?G y5)" and m6: "(p', s', g') \<in> set (rmatch EndLine y6)"
    by blast
  obtain p6 s6 g6 where y6: "y6 = (p6, s6, g6)" by (cases y6) auto
  from m6 have x: "(p', s', g') = y6"
    unfolding y6 by (simp add: rmatch.simps(9) split: if_splits)
  from m6' obtain q t h where
    inner: "(q, t, h) \<in> set (rmatch (Plus (Cls AnyNotNL) True) (p5, s5, []))"
    and g6: "g6 = (1, take (length s5 - length t) s5) # h"
    unfolding y5 y6 g5 by (auto simp: rmatch.simps(5))
  from inner have "(q, t, h) \<in> set (rmatch (Seq (Cls AnyNotNL) (Star (Cls AnyNotNL) True)) (p5, s5, []))"
    by (simp add: Plus_def)
  from rmatch_Seq_mem [OF this] obtain z where
    z1: "z \<in> set (rmatch (Cls AnyNotNL) (p5, s5, []))"
    and z2: "(q, t, h) \<in> set (rmatch (Star (Cls AnyNotNL) True) z)"
    by blast
  obtain pz sz gz where z: "z = (pz, sz, gz)" by (cases z) auto
  from rmatch_Cls_mem [OF z1 [unfolded z]] have "gz = []" .
  with rmatch_Star_Cls_results [OF z2 [unfolded z]] have h: "h = []" by simp
  have "set (take (length s5 - length t) s5) \<subseteq> set s5" by (rule set_take_subset)
  with s5 have "list_all (in_cls Space) (take (length s5 - length t) s5)"
    unfolding list_all_iff by blast
  with x y6 g6 h show ?thesis by simp
qed

lemma trim_left_Space:
  assumes "list_all (in_cls Space) w"
  shows "trim_left (w @ v) = trim_left v"
  using assms
proof (induction w)
  case Nil
  show ?case by simp
next
  case (Cons c w)
  then have "ascii_space c" by (auto simp: ascii_space_def)
  then have len: "space_len (c # w @ v) = 1" by simp
  have "trim_left (c # w @ v) =
      (if space_len (c # w @ v) = 0 then c # w @ v
       else trim_left (drop (space_len (c # w @ v)) (c # w @ v)))"
    by (rule trim_left.simps)
  also have "\<dots> = trim_left (w @ v)" unfolding len by simp
  finally have "trim_left (c # w @ v) = trim_left (w @ v)" .
  with Cons show ?case by (simp del: in_cls.simps)
qed

lemma strings_TrimSpace_Space:
  "list_all (in_cls Space) w \<Longrightarrow> strings_TrimSpace (w @ v) = strings_TrimSpace v"
  by (simp add: strings_TrimSpace_def trim_left_Space)

lemma strings_TrimSpace_Nil: "strings_TrimSpace [] = []"
  by code_simp

lemma strings_TrimSpace_blank:
  assumes "list_all (in_cls Space) w"
  shows "strings_TrimSpace w = []"
  using strings_TrimSpace_Space [OF assms, of "[]"] by (simp add: strings_TrimSpace_Nil)

lemma no_R_blank:
  assumes "list_all (in_cls Space) w"
  shows "CHR ''R'' \<notin> set w"
proof
  assume "CHR ''R'' \<in> set w"
  with assms have "in_cls Space CHR ''R''" unfolding list_all_iff by blast
  then show False by simp
qed

lemma re_search_label_unfold:
  "re_search roleRe p (''ROLE'' @ w) =
     (case rmatch roleRe (p, ''ROLE'' @ w, []) of
        m # _ \<Rightarrow> Some ([], m)
      | [] \<Rightarrow> map_option (\<lambda>(pre, m). (CHR ''R'' # pre, m))
               (re_search roleRe (Some CHR ''R'') (''OLE'' @ w)))"
proof -
  have "re_search roleRe p (CHR ''R'' # (''OLE'' @ w)) =
     (case rmatch roleRe (p, CHR ''R'' # (''OLE'' @ w), []) of
        m # _ \<Rightarrow> Some ([], m)
      | [] \<Rightarrow> map_option (\<lambda>(pre, m). (CHR ''R'' # pre, m))
               (re_search roleRe (Some CHR ''R'') (''OLE'' @ w)))"
    by (rule re_search.simps(2))
  then show ?thesis by (simp only: append_Cons)
qed

lemma roleAt_blank:
  assumes "list_all (in_cls Space) w"
  shows "roleAt p (''ROLE'' @ w) = []"
proof -
  from no_R_blank [OF assms] have "CHR ''R'' \<notin> set (''OLE'' @ w)" by simp
  then have later: "re_search roleRe (Some CHR ''R'') (''OLE'' @ w) = None"
    by (rule re_search_roleRe_no_R)
  show ?thesis
  proof (cases "rmatch roleRe (p, ''ROLE'' @ w, [])")
    case Nil
    have "re_search roleRe p (''ROLE'' @ w) = None"
      unfolding re_search_label_unfold Nil later by simp
    then show ?thesis unfolding roleAt_def by simp
  next
    case (Cons m ms)
    obtain p' s' g' where m: "m = (p', s', g')" by (cases m) auto
    have "m \<in> set (rmatch roleRe (p, ''ROLE'' @ w, []))" unfolding Cons by simp
    from rmatch_roleRe_blank [OF assms this [unfolded m]] obtain v where
      v: "g' = [(1, v)]" "list_all (in_cls Space) v" by blast
    have "re_search roleRe p (''ROLE'' @ w) = Some ([], p', s', [(1, v)])"
      unfolding re_search_label_unfold Cons m v(1) by simp
    then have "roleAt p (''ROLE'' @ w) = strings_TrimSpace v"
      unfolding roleAt_def by (simp add: submatch_def)
    also have "\<dots> = []" using v(2) by (rule strings_TrimSpace_blank)
    finally show ?thesis .
  qed
qed

text \<open>The role in terms of the lines of the document.\<close>

lemma lines_induct [case_names last line]:
  assumes "\<And>l. nl \<notin> set l \<Longrightarrow> P l"
    and "\<And>l s. nl \<notin> set l \<Longrightarrow> P s \<Longrightarrow> P (l @ nl # s)"
  shows "P s"
proof (induction s rule: length_induct)
  case (1 s)
  show ?case
  proof (cases "nl \<in> set s")
    case False
    then show ?thesis by (rule assms(1))
  next
    case True
    then obtain l s' where s: "s = l @ nl # s'" and l: "nl \<notin> set l"
      by (auto dest: split_list_first)
    have "length s' < length s" unfolding s by simp
    with 1 have "P s'" by blast
    with l have "P (l @ nl # s')" by (rule assms(2))
    then show ?thesis unfolding s .
  qed
qed

lemma Space_nl: "in_cls Space nl"
  by simp

lemma blank_lines_text:
  "dropWhile isBlankLine (strings_Split s nl) = [] \<Longrightarrow> list_all (in_cls Space) s"
proof (induction s rule: lines_induct)
  case (last l)
  then show ?case
    by (simp add: strings_Split_last_line isBlankLine_def del: in_cls.simps split: if_splits)
next
  case (line l s)
  from line.prems line.hyps have "isBlankLine l"
    and "dropWhile isBlankLine (strings_Split s nl) = []"
    by (simp_all add: strings_Split_line split: if_splits)
  with line.IH show ?case
    by (simp add: isBlankLine_def Space_nl del: in_cls.simps)
qed

lemma value_line_text:
  "dropWhile isBlankLine (strings_Split s nl) = v # ls \<Longrightarrow>
     \<exists>w rest. s = w @ v @ rest \<and> list_all (in_cls Space) w \<and>
       nl \<notin> set v \<and> \<not> isBlankLine v \<and> (rest = [] \<or> hd rest = nl)"
proof (induction s rule: lines_induct)
  case (last l)
  then have "\<not> isBlankLine l" and "v = l"
    by (simp_all add: strings_Split_last_line split: if_splits)
  with last.hyps have "l = [] @ v @ [] \<and> list_all (in_cls Space) [] \<and>
       nl \<notin> set v \<and> \<not> isBlankLine v \<and> ([] = [] \<or> hd [] = nl)"
    by simp
  then show ?case by blast
next
  case (line l s)
  show ?case
  proof (cases "isBlankLine l")
    case True
    with line.prems line.hyps have "dropWhile isBlankLine (strings_Split s nl) = v # ls"
      by (simp add: strings_Split_line)
    from line.IH [OF this] obtain w rest where
      s: "s = w @ v @ rest" and w: "list_all (in_cls Space) w"
      and v: "nl \<notin> set v" "\<not> isBlankLine v" "rest = [] \<or> hd rest = nl"
      by blast
    from True w have "list_all (in_cls Space) (l @ nl # w)"
      by (simp add: isBlankLine_def Space_nl del: in_cls.simps)
    moreover have "l @ nl # s = (l @ nl # w) @ v @ rest" unfolding s by simp
    ultimately show ?thesis using v by blast
  next
    case False
    with line.prems line.hyps have "v = l"
      by (simp add: strings_Split_line)
    with False line.hyps have "l @ nl # s = [] @ v @ (nl # s) \<and> list_all (in_cls Space) [] \<and>
       nl \<notin> set v \<and> \<not> isBlankLine v \<and> (nl # s = [] \<or> hd (nl # s) = nl)"
      by simp
    then show ?thesis by blast
  qed
qed

lemma label_not_blank: "isLabelLine l \<Longrightarrow> \<not> isBlankLine l"
proof
  assume "isLabelLine l" and "isBlankLine l"
  then have "prefix ''ROLE'' l" and "list_all (in_cls Space) l"
    by (simp_all add: isLabelLine_def isBlankLine_def)
  then have "CHR ''R'' \<in> set l" by (auto simp: prefix_def)
  with no_R_blank [OF \<open>list_all (in_cls Space) l\<close>] show False by simp
qed

lemma roleMatch_blank:
  "\<forall>l\<in>set ls. isBlankLine l \<Longrightarrow> roleMatch ls = None"
proof (induction ls)
  case Nil
  show ?case by simp
next
  case (Cons l ls)
  then have "\<not> isLabelLine l" using label_not_blank by auto
  with Cons show ?case by simp
qed

lemma roleAt_label:
  assumes "p = None \<or> p = Some nl" and "list_all (in_cls Space) r"
  shows "roleAt p (''ROLE'' @ r @ nl # s) =
     (case dropWhile isBlankLine (strings_Split s nl) of
        [] \<Rightarrow> []
      | v # _ \<Rightarrow> strings_TrimSpace v)"
proof (cases "dropWhile isBlankLine (strings_Split s nl)")
  case Nil
  from blank_lines_text [OF Nil] assms(2) have "list_all (in_cls Space) (r @ nl # s)"
    by (simp add: Space_nl del: in_cls.simps)
  from roleAt_blank [OF this, of p] show ?thesis unfolding Nil by simp
next
  case (Cons v ls)
  from value_line_text [OF Cons] obtain w rest where
    s: "s = w @ v @ rest" and w: "list_all (in_cls Space) w"
    and v: "nl \<notin> set v" "\<not> isBlankLine v" and rest: "rest = [] \<or> hd rest = nl"
    by blast
  from v(2) have "\<not> list_all (in_cls Space) v" by (simp add: isBlankLine_def)
  from non_space_split [OF this] obtain w2 x v2 where
    v2: "v = w2 @ x # v2" and w2: "list_all (in_cls Space) w2" and x: "\<not> in_cls Space x"
    by blast
  let ?w = "r @ nl # w @ w2"
  have 1: "list_all (in_cls Space) ?w"
    using assms(2) w w2 by (simp add: Space_nl del: in_cls.simps)
  have 2: "nl \<in> set ?w" by simp
  have 3: "x # v2 \<noteq> []" by simp
  have 4: "\<not> in_cls Space (hd (x # v2))" using x by simp
  have 5: "nl \<notin> set (x # v2)" using v(1) unfolding v2 by simp
  have "roleAt p (''ROLE'' @ ?w @ (x # v2) @ rest) = strings_TrimSpace (x # v2)"
    by (rule roleAt_value [OF assms(1) 1 2 3 4 5 rest])
  also have "''ROLE'' @ ?w @ (x # v2) @ rest = ''ROLE'' @ r @ nl # s"
    unfolding s v2 by simp
  also have "strings_TrimSpace (x # v2) = strings_TrimSpace v"
    unfolding v2 by (rule strings_TrimSpace_Space [OF w2, symmetric])
  finally show ?thesis unfolding Cons by simp
qed

lemma label_line_split:
  assumes "isLabelLine l"
  shows "\<exists>r. l = ''ROLE'' @ r \<and> list_all (in_cls Space) r"
proof -
  from assms obtain r where r: "l = ''ROLE'' @ r" by (auto simp: isLabelLine_def prefix_def)
  with assms have "list_all (in_cls Space) r" by (simp add: isLabelLine_def del: in_cls.simps)
  with r show ?thesis by blast
qed

lemma roleAt_roleMatch:
  "p = None \<or> p = Some nl \<Longrightarrow>
   roleAt p s = (case roleMatch (strings_Split s nl) of
                   None \<Rightarrow> []
                 | Some v \<Rightarrow> strings_TrimSpace v)"
proof (induction s arbitrary: p rule: lines_induct)
  case (last l)
  have spec: "roleMatch (strings_Split l nl) = None"
    using last.hyps by (simp add: strings_Split_last_line)
  show ?case
  proof (cases "isLabelLine l")
    case False
    from roleAt_skip_last_line [OF last.hyps False] show ?thesis unfolding spec by simp
  next
    case True
    from label_line_split [OF this] obtain r where
      r: "l = ''ROLE'' @ r" "list_all (in_cls Space) r" by blast
    have "roleAt p l = []" unfolding r(1) by (rule roleAt_blank [OF r(2)])
    then show ?thesis unfolding spec by simp
  qed
next
  case (line l s)
  have lines: "strings_Split (l @ nl # s) nl = l # strings_Split s nl"
    using line.hyps by (rule strings_Split_line)
  show ?case
  proof (cases "isLabelLine l")
    case False
    have "roleAt p (l @ nl # s) = roleAt (Some nl) s"
      using line.hyps False by (rule roleAt_skip_line)
    also have "\<dots> = (case roleMatch (strings_Split s nl) of
                   None \<Rightarrow> [] | Some v \<Rightarrow> strings_TrimSpace v)"
      by (rule line.IH) simp
    finally show ?thesis unfolding lines using False by simp
  next
    case True
    from label_line_split [OF this] obtain r where
      r: "l = ''ROLE'' @ r" "list_all (in_cls Space) r" by blast
    have code: "roleAt p (l @ nl # s) =
       (case dropWhile isBlankLine (strings_Split s nl) of
          [] \<Rightarrow> [] | v # _ \<Rightarrow> strings_TrimSpace v)"
      using roleAt_label [OF line.prems r(2), of s] unfolding r(1) by simp
    show ?thesis
    proof (cases "dropWhile isBlankLine (strings_Split s nl)")
      case Nil
      then have "\<forall>l\<in>set (strings_Split s nl). isBlankLine l"
        by (simp add: dropWhile_eq_Nil_conv)
      then have nomatch: "roleMatch (strings_Split s nl) = None" by (rule roleMatch_blank)
      have "roleMatch (l # strings_Split s nl) = None"
        using True nomatch unfolding roleMatch.simps Nil by simp
      then show ?thesis unfolding lines code Nil by simp
    next
      case (Cons v ls)
      have "roleMatch (l # strings_Split s nl) = Some v"
        using True unfolding roleMatch.simps Cons by simp
      then show ?thesis unfolding lines code Cons by simp
    qed
  qed
qed

lemma extractRole_roleAt: "extractRole markdown = roleAt None markdown"
  unfolding extractRole_def FindStringSubmatch_def roleAt_def
  by (cases "re_search roleRe None markdown") auto
section \<open>Facts about the instance\<close>

lemma ascii_upper_idem: "ascii_upper (ascii_upper c) = ascii_upper c"
proof (cases "97 \<le> (of_char c :: nat) \<and> (of_char c :: nat) \<le> 122")
  case True
  obtain n :: nat where n: "n = of_char c" by simp
  from True n have r: "97 \<le> n" "n \<le> 122" by simp_all
  have a: "ascii_upper c = char_of (n - 32)"
    using True n by (simp add: ascii_upper_def)
  from r have "n - 32 < 256" by arith
  then have "(n - 32) mod 256 = n - 32" by (rule mod_less)
  then have b: "(of_char (char_of (n - 32)) :: nat) = n - 32" by simp
  from r have "\<not> 97 \<le> n - 32" by arith
  then have "ascii_upper (char_of (n - 32)) = char_of (n - 32)"
    unfolding ascii_upper_def b by simp
  with a show ?thesis by simp
next
  case False
  then have "ascii_upper c = c" by (auto simp: ascii_upper_def)
  then show ?thesis by simp
qed
lemma map_ascii_upper_idem: "map ascii_upper (map ascii_upper s) = map ascii_upper s"
  by (simp add: ascii_upper_idem)

lemma small_lib_urlEncode:
  "urlEncode small_lib ''http://x/1.png'' = ''http://x/1.png''"
  "urlEncode small_lib ''http://x/2.png'' = ''http://x/2.png''"
  "urlEncode small_lib ''HTTP://x/1.png'' = ''http://x/1.png''"
  "urlEncode small_lib ''#'' = []"
  "urlEncode small_lib '':x'' = '':x''"
  by code_simp+

section \<open>Facts about urlEncode and extractImages\<close>


text \<open>
  Normalising twice gives what normalising once gives exactly when the library parses what
  it has written into a URL that it writes the same way, or does not parse it at all: a
  property of net/url alone, which the code of main.go neither helps nor hinders.
\<close>

lemma urlEncode_idem_iff:
  "urlEncode L (urlEncode L rawURL) = urlEncode L rawURL \<longleftrightarrow>
     (\<forall>u. url_Parse L rawURL = Some u \<longrightarrow>
          urlEncode L (url_String L u) = url_String L u)"
  by (cases "url_Parse L rawURL") (simp_all add: urlEncode_def)

lemma remdups_snoc: "remdups (ys @ [x]) = removeAll x (remdups ys) @ [x]"
  by (induction ys) auto

lemma first_occurrence_kept:
  "rev (remdups (rev (x # xs))) = x # removeAll x (rev (remdups (rev xs)))"
  by (simp add: remdups_snoc removeAll_filter_not_eq rev_filter)

lemma keep_new_filter:
  "keep_new seen xs = filter (\<lambda>x. x \<notin> seen) (rev (remdups (rev xs)))"
proof (induction xs arbitrary: seen)
  case Nil
  show ?case by simp
next
  case (Cons x xs)
  have "filter (\<lambda>y. y \<notin> seen) (removeAll x ys) = filter (\<lambda>y. y \<notin> insert x seen) ys" for ys
    by (induction ys) auto
  moreover have "filter (\<lambda>y. y \<notin> seen) (removeAll x ys) = filter (\<lambda>y. y \<notin> seen) ys"
    if "x \<in> seen" for ys
    using that by (induction ys) auto
  ultimately show ?case
    by (simp add: first_occurrence_kept Cons.IH del: rev.simps)
qed

lemma extractImages_loop_keep_new:
  "extractImages_loop L matches images seen =
     images @ map (urlEncode L)
       (keep_new seen (filter (\<lambda>rawURL. rawURL \<noteq> [])
          (map (\<lambda>match. strings_TrimSpace (submatch match 1)) matches)))"
  by (induction matches arbitrary: images seen) (simp_all add: Let_def)

lemma extractImages_eq:
  "extractImages L markdown =
     map (urlEncode L) (rev (remdups (rev (imageTargets markdown))))"
  by (simp add: extractImages_def extractImages_loop_keep_new keep_new_filter imageTargets_def)

lemma count_list_map_ge2:
  assumes "distinct xs" "a \<in> set xs" "b \<in> set xs" "a \<noteq> b" "f a = u" "f b = u"
  shows "2 \<le> count_list (map f xs) u"
proof -
  have "count_list (map f xs) u = length (filter (\<lambda>x. f x = u) xs)"
    by (induction xs) auto
  moreover have "{a, b} \<subseteq> set (filter (\<lambda>x. f x = u) xs)"
    using assms by auto
  then have "card {a, b} \<le> card (set (filter (\<lambda>x. f x = u) xs))"
    by (intro card_mono) auto
  moreover have "card (set (filter (\<lambda>x. f x = u) xs)) \<le> length (filter (\<lambda>x. f x = u) xs)"
    by (rule card_length)
  moreover have "card {a, b} = 2" using assms(4) by simp
  ultimately show ?thesis by simp
qed



section \<open>The end-to-end scenario\<close>

lemma jett_abilities: "parseAbilities L jett_doc = []"
  by code_simp

lemma jett_images: "extractImages L jett_doc = [urlEncode L ''http://x/1.png'']"
  by code_simp

lemma jett_name: "extractName jett_doc = ''Jett''"
  by code_simp

lemma jett_role: "extractRole jett_doc = ''Duelist''"
  by code_simp

text \<open>
  C1, as the spec states it, fails: on the scenario's document the record has no sub-item
  named CLOUDBURST.
\<close>

theorem C1_counterexample:
  "Abilities (parseMarkdown small_lib jett_doc) \<noteq>
     [\<lparr>Ability.Name = ''CLOUDBURST'', Description = ''Throws a cloud.'',
       Image = ''http://x/1.png''\<rparr>]"
  by (simp add: parseMarkdown_def jett_abilities)

text \<open>
  C1, amended: for the document of the scenario, and whatever the case and URL functions
  are, as long as URL normalisation leaves \<^verbatim>\<open>http://x/1.png\<close> as it is, \<open>parseMarkdown\<close>
  returns the record with name Jett, role Duelist, media \<^verbatim>\<open>["http://x/1.png"]\<close> and no
  sub-item at all: no line starting with an image marker follows the numbered image line,
  so \<open>seenLargeImage\<close> is never set and CLOUDBURST is not taken for a name.
\<close>

theorem C1_scenario:
  assumes "urlEncode L ''http://x/1.png'' = ''http://x/1.png''"
  shows "parseMarkdown L jett_doc =
     \<lparr>Agent.Name = ''Jett'', Role = ''Duelist'', Abilities = [],
      Media = [''http://x/1.png''], Markdown = jett_doc\<rparr>"
  using assms by (simp add: parseMarkdown_def jett_abilities jett_images jett_name jett_role)

theorem C1_scenario_witness:
  "parseMarkdown small_lib jett_doc =
     \<lparr>Agent.Name = ''Jett'', Role = ''Duelist'', Abilities = [],
      Media = [''http://x/1.png''], Markdown = jett_doc\<rparr>"
  by (rule C1_scenario [OF small_lib_urlEncode(1)])

section \<open>The image of a sub-record\<close>

text \<open>
  C2 fails on the code.  The document \<open>ordinal_doc\<close> has one numbered image, numbered 2, so
  the map has the key 2 and \<^verbatim>\<open>len(imageMap)\<close> is 1.  The sub-record at slot 1 has the empty
  image, because the loop asks \<^verbatim>\<open>abilityIndex+1 <= len(imageMap)\<close> and not whether the key is in
  the map; the entry for key 2 is there and its normal form is not empty.  What the loop
  does at every slot is \<open>parseAbilities_slot_image\<close>.
\<close>

lemma ordinal_section: "abilitiesSection ordinal_doc = Some ordinal_doc"
  by code_simp

lemma ordinal_imageMap:
  "imageMap_of (FindAllStringSubmatch abilityImageRe ordinal_doc) = [(2, ''http://x/2.png'')]"
  by code_simp

theorem C2_failing_input:
  "parseAbilities small_lib ordinal_doc =
     [\<lparr>Ability.Name = ''FIRST ONE'', Description = ''does one thing.'', Image = []\<rparr>,
      \<lparr>Ability.Name = ''SECOND ONE'', Description = ''does another thing.'', Image = []\<rparr>] \<and>
   abilitiesSection ordinal_doc = Some ordinal_doc \<and>
   map_of (imageMap_of (FindAllStringSubmatch abilityImageRe ordinal_doc)) 2 =
     Some ''http://x/2.png'' \<and>
   urlEncode small_lib ''http://x/2.png'' = ''http://x/2.png''"
proof -
  have "parseAbilities small_lib ordinal_doc =
     [\<lparr>Ability.Name = ''FIRST ONE'', Description = ''does one thing.'', Image = []\<rparr>,
      \<lparr>Ability.Name = ''SECOND ONE'', Description = ''does another thing.'', Image = []\<rparr>]"
    by code_simp
  then show ?thesis
    by (simp add: ordinal_section ordinal_imageMap small_lib_urlEncode)
qed

section \<open>The section window\<close>

lemma jett_heading: "strings_Index jett_doc ''## SPECIAL ABILITIES'' = Some 22"
  by code_simp

lemma jett_section: "abilitiesSection jett_doc = Some ''## SPECIAL ABILITIES\<newline>1. ![a](http://x/1.png)\<newline>CLOUDBURST\<newline>Throws a cloud.''"
  by code_simp

text \<open>
  C3: when the heading \<^verbatim>\<open>## SPECIAL ABILITIES\<close> occurs nowhere in the document, the list of
  sub-records is empty.  When its first occurrence is at offset \<open>i\<close>, the section is the
  \<open>n\<close> bytes from \<open>i\<close> on, where no footer pattern (the download link, the platform line, the
  copyright line) occurs at an offset of the section below \<open>n\<close>, and either a footer pattern
  occurs at \<open>n\<close> or the document ends there: nothing at or after the earliest marker is in
  the section.  The sub-records depend on the document through this section only.
\<close>

theorem C3_section_window:
  "((\<forall>j. \<not> prefix ''## SPECIAL ABILITIES'' (drop j markdown)) \<longrightarrow>
      parseAbilities L markdown = []) \<and>
   (prefix ''## SPECIAL ABILITIES'' (drop i markdown) \<and>
    (\<forall>j<i. \<not> prefix ''## SPECIAL ABILITIES'' (drop j markdown)) \<longrightarrow>
      (\<exists>n. i + n \<le> length markdown \<and>
           abilitiesSection markdown = Some (take n (drop i markdown)) \<and>
           (\<forall>p\<in>set sectionFooterPatterns. \<forall>j<n. \<not> prefix p (drop (i + j) markdown)) \<and>
           (i + n = length markdown \<or>
            (\<exists>p\<in>set sectionFooterPatterns. prefix p (drop (i + n) markdown))))) \<and>
   (abilitiesSection markdown = abilitiesSection markdown' \<longrightarrow>
      parseAbilities L markdown = parseAbilities L markdown')"
proof (intro conjI impI)
  assume "\<forall>j. \<not> prefix ''## SPECIAL ABILITIES'' (drop j markdown)"
  from strings_Index_eq_None [OF this]
  show "parseAbilities L markdown = []"
    by (simp add: parseAbilities_def abilitiesSection_def)
next
  assume "prefix ''## SPECIAL ABILITIES'' (drop i markdown) \<and>
    (\<forall>j<i. \<not> prefix ''## SPECIAL ABILITIES'' (drop j markdown))"
  then have "strings_Index markdown ''## SPECIAL ABILITIES'' = Some i"
    by (simp add: strings_Index_eq_Some)
  from abilitiesSection_window [OF this]
  show "\<exists>n. i + n \<le> length markdown \<and>
           abilitiesSection markdown = Some (take n (drop i markdown)) \<and>
           (\<forall>p\<in>set sectionFooterPatterns. \<forall>j<n. \<not> prefix p (drop (i + j) markdown)) \<and>
           (i + n = length markdown \<or>
            (\<exists>p\<in>set sectionFooterPatterns. prefix p (drop (i + n) markdown)))" .
next
  assume "abilitiesSection markdown = abilitiesSection markdown'"
  then show "parseAbilities L markdown = parseAbilities L markdown'"
    by (simp add: parseAbilities_def)
qed

theorem C3_section_window_witness:
  "prefix ''## SPECIAL ABILITIES'' (drop 22 jett_doc) \<and>
   (\<exists>n. 22 + n \<le> length jett_doc \<and>
        abilitiesSection jett_doc = Some (take n (drop 22 jett_doc)) \<and>
        (\<forall>p\<in>set sectionFooterPatterns. \<forall>j<n. \<not> prefix p (drop (22 + j) jett_doc)) \<and>
        (22 + n = length jett_doc \<or>
         (\<exists>p\<in>set sectionFooterPatterns. prefix p (drop (22 + n) jett_doc))))"
proof -
  from strings_Index_Some [OF jett_heading]
  have h: "prefix ''## SPECIAL ABILITIES'' (drop 22 jett_doc) \<and>
    (\<forall>j<22. \<not> prefix ''## SPECIAL ABILITIES'' (drop j jett_doc))" by simp
  with C3_section_window [where markdown = jett_doc and i = 22 and L = small_lib
      and markdown' = jett_doc]
  show ?thesis by blast
qed

section \<open>The footer fragments of a description\<close>

lemma twitter_clean: "cleanDescription ''Twitter feed'' = ''Twitter feed''"
  by code_simp

lemma cloud_index: "strings_Index ''Throws a cloud. Twitter feed'' ''Twitter'' = Some 16"
  by code_simp

lemma twitter_doc_abilities:
  "parseAbilities small_lib twitter_doc =
     [\<lparr>Ability.Name = ''FIRST ONE'',
       Description = ''Twitter is where the agent posts news and clips every day.'',
       Image = ''http://x/1.png''\<rparr>]"
  by code_simp

text \<open>
  C4, as the spec states it, fails: \<^verbatim>\<open>Twitter\<close> is a footer fragment, the description of the
  sub-record of \<open>twitter_doc\<close> starts with it, and cleaning leaves the description as it is:
  nothing is cut and the fragment is still there.
\<close>

theorem C4_counterexample:
  "''Twitter'' \<in> set descFooterPatterns \<and>
   map Description (parseAbilities small_lib twitter_doc) =
     [''Twitter is where the agent posts news and clips every day.''] \<and>
   cleanDescription ''Twitter is where the agent posts news and clips every day.'' =
     ''Twitter is where the agent posts news and clips every day.'' \<and>
   strings_Index ''Twitter is where the agent posts news and clips every day.'' ''Twitter'' =
     Some 0"
proof -
  have "''Twitter'' \<in> set descFooterPatterns" by (simp add: descFooterPatterns_def)
  moreover have "cleanDescription ''Twitter is where the agent posts news and clips every day.'' =
     ''Twitter is where the agent posts news and clips every day.''" by code_simp
  moreover have "strings_Index ''Twitter is where the agent posts news and clips every day.''
     ''Twitter'' = Some 0" by simp
  ultimately show ?thesis by (simp add: twitter_doc_abilities)
qed

text \<open>
  C4, amended: a round of the loop cuts the description at the first occurrence of the
  fragment when that occurrence is at an offset greater than 0, keeping the text before it,
  and leaves the description as it is when the fragment is absent or starts the description
  (the guard \<^verbatim>\<open>idx > 0\<close>).  The rounds follow one another in the order of the list: the cleaned
  description is the trimmed result of the rounds, one for each fragment of the list from
  its first to its last, each working on the description the round before has left, the
  first on the description with links, images and runs of white space rewritten; \<open>ds\<close> is
  the sequence of the descriptions between the rounds.  Consequently a cleaned description
  holds a footer fragment only if it starts with it.
\<close>

theorem C4_footer_cut:
  "(strings_Index desc pattern = Some (Suc i) \<longrightarrow>
      cutFooter desc pattern = take (Suc i) desc) \<and>
   (strings_Index desc pattern = None \<or> strings_Index desc pattern = Some 0 \<longrightarrow>
      cutFooter desc pattern = desc) \<and>
   (pattern \<in> set descFooterPatterns \<and> strings_Contains (cleanDescription desc) pattern \<longrightarrow>
      prefix pattern (cleanDescription desc)) \<and>
   (prefix pattern (drop n desc) \<and> (\<forall>j<n. \<not> prefix pattern (drop j desc)) \<and> 0 < n \<longrightarrow>
      cutFooter desc pattern = take n desc) \<and>
   ((\<forall>j. \<not> prefix pattern (drop j desc)) \<or> prefix pattern desc \<longrightarrow>
      cutFooter desc pattern = desc) \<and>
   cleanDescription desc =
     strings_TrimSpace
       (foldl cutFooter
          (strings_TrimSpace
             (ReplaceAllString spacesRe
                (ReplaceAllString imageRe
                   (ReplaceAllString linkRe desc (\<lambda>g. submatch g 1)) (\<lambda>g. []))
                (\<lambda>g. '' '')))
          descFooterPatterns) \<and>
   (\<exists>ds. length ds = Suc (length descFooterPatterns) \<and>
         hd ds = strings_TrimSpace
             (ReplaceAllString spacesRe
                (ReplaceAllString imageRe
                   (ReplaceAllString linkRe desc (\<lambda>g. submatch g 1)) (\<lambda>g. []))
                (\<lambda>g. '' '')) \<and>
         cleanDescription desc = strings_TrimSpace (last ds) \<and>
         (\<forall>k<length descFooterPatterns.
            (\<forall>m. prefix (descFooterPatterns ! k) (drop m (ds ! k)) \<and>
                 (\<forall>j<m. \<not> prefix (descFooterPatterns ! k) (drop j (ds ! k))) \<and> 0 < m \<longrightarrow>
                 ds ! Suc k = take m (ds ! k)) \<and>
            ((\<forall>j. \<not> prefix (descFooterPatterns ! k) (drop j (ds ! k))) \<or>
             prefix (descFooterPatterns ! k) (ds ! k) \<longrightarrow>
                 ds ! Suc k = ds ! k)))"
proof -
  let ?d0 = "strings_TrimSpace
             (ReplaceAllString spacesRe
                (ReplaceAllString imageRe
                   (ReplaceAllString linkRe desc (\<lambda>g. submatch g 1)) (\<lambda>g. []))
                (\<lambda>g. '' ''))"
  have fold: "cleanDescription desc = strings_TrimSpace (foldl cutFooter ?d0 descFooterPatterns)"
    by (simp add: cleanDescription_def Let_def)
  from foldl_rounds [of descFooterPatterns ?d0 cutFooter] obtain ds where
    ds: "length ds = Suc (length descFooterPatterns)" "hd ds = ?d0"
      "last ds = foldl cutFooter ?d0 descFooterPatterns"
      "\<forall>k<length descFooterPatterns. ds ! Suc k = cutFooter (ds ! k) (descFooterPatterns ! k)"
    by blast
  have rounds: "\<forall>k<length descFooterPatterns.
            (\<forall>m. prefix (descFooterPatterns ! k) (drop m (ds ! k)) \<and>
                 (\<forall>j<m. \<not> prefix (descFooterPatterns ! k) (drop j (ds ! k))) \<and> 0 < m \<longrightarrow>
                 ds ! Suc k = take m (ds ! k)) \<and>
            ((\<forall>j. \<not> prefix (descFooterPatterns ! k) (drop j (ds ! k))) \<or>
             prefix (descFooterPatterns ! k) (ds ! k) \<longrightarrow>
                 ds ! Suc k = ds ! k)"
  proof (intro allI impI)
    fix k
    assume "k < length descFooterPatterns"
    with ds(4) have eq: "ds ! Suc k = cutFooter (ds ! k) (descFooterPatterns ! k)" by blast
    show "(\<forall>m. prefix (descFooterPatterns ! k) (drop m (ds ! k)) \<and>
                 (\<forall>j<m. \<not> prefix (descFooterPatterns ! k) (drop j (ds ! k))) \<and> 0 < m \<longrightarrow>
                 ds ! Suc k = take m (ds ! k)) \<and>
            ((\<forall>j. \<not> prefix (descFooterPatterns ! k) (drop j (ds ! k))) \<or>
             prefix (descFooterPatterns ! k) (ds ! k) \<longrightarrow>
                 ds ! Suc k = ds ! k)"
      unfolding eq using cutFooter_first_occurrence [of "descFooterPatterns ! k" _ "ds ! k"]
      by blast
  qed
  have seq: "\<exists>ds. length ds = Suc (length descFooterPatterns) \<and> hd ds = ?d0 \<and>
         cleanDescription desc = strings_TrimSpace (last ds) \<and>
         (\<forall>k<length descFooterPatterns.
            (\<forall>m. prefix (descFooterPatterns ! k) (drop m (ds ! k)) \<and>
                 (\<forall>j<m. \<not> prefix (descFooterPatterns ! k) (drop j (ds ! k))) \<and> 0 < m \<longrightarrow>
                 ds ! Suc k = take m (ds ! k)) \<and>
            ((\<forall>j. \<not> prefix (descFooterPatterns ! k) (drop j (ds ! k))) \<or>
             prefix (descFooterPatterns ! k) (ds ! k) \<longrightarrow>
                 ds ! Suc k = ds ! k))"
    using ds(1,2) rounds unfolding fold ds(3) [symmetric] by blast
  have old: "(strings_Index desc pattern = Some (Suc i) \<longrightarrow>
      cutFooter desc pattern = take (Suc i) desc) \<and>
   (strings_Index desc pattern = None \<or> strings_Index desc pattern = Some 0 \<longrightarrow>
      cutFooter desc pattern = desc) \<and>
   (pattern \<in> set descFooterPatterns \<and> strings_Contains (cleanDescription desc) pattern \<longrightarrow>
      prefix pattern (cleanDescription desc))"
    using cutFooter_cases [of desc pattern i] cleanDescription_onlyAtStart [of pattern desc]
    by (simp add: onlyAtStart_def)
  from old cutFooter_first_occurrence [of pattern n desc] fold seq
  show ?thesis by (intro conjI) blast+
qed

text \<open>
  The order of the rounds matters.  In the description below the round of \<^verbatim>\<open>Riot Games\<close>
  comes before the round of the copyright line, cuts at offset 16 and leaves nothing for the
  later round to find; with the rounds in the opposite order the cut would be at offset 3.
\<close>

lemma riot_rounds:
  "strings_TrimSpace (foldl cutFooter
      (strings_TrimSpace
         (ReplaceAllString spacesRe
            (ReplaceAllString imageRe
               (ReplaceAllString linkRe (''ab '' @ copyright @ '' 2020-2025 Riot Games'')
                  (\<lambda>g. submatch g 1)) (\<lambda>g. []))
            (\<lambda>g. '' '')))
      descFooterPatterns) = ''ab '' @ copyright @ '' 2020-2025''"
  by code_simp

lemma riot_rounds_reversed:
  "strings_TrimSpace (foldl cutFooter (''ab '' @ copyright @ '' 2020-2025 Riot Games'')
      (rev descFooterPatterns)) = ''ab''"
  by code_simp

theorem C4_footer_cut_witness:
  "cutFooter ''Throws a cloud. Twitter feed'' ''Twitter'' = ''Throws a cloud. '' \<and>
   cutFooter ''Twitter feed'' ''Twitter'' = ''Twitter feed'' \<and>
   prefix ''Twitter'' (cleanDescription ''Twitter feed'') \<and>
   cleanDescription (''ab '' @ copyright @ '' 2020-2025 Riot Games'') =
     ''ab '' @ copyright @ '' 2020-2025''"
proof -
  have c: "strings_Contains (cleanDescription ''Twitter feed'') ''Twitter''"
    by (simp add: twitter_clean strings_Contains_def)
  have m: "''Twitter'' \<in> set descFooterPatterns" by (simp add: descFooterPatterns_def)
  have z: "strings_Index ''Twitter feed'' ''Twitter'' = Some 0" by simp
  from C4_footer_cut [of "''Throws a cloud. Twitter feed''" "''Twitter''" 15 0, THEN conjunct1]
    cloud_index
  have "cutFooter ''Throws a cloud. Twitter feed'' ''Twitter'' = ''Throws a cloud. ''"
    by simp
  moreover from C4_footer_cut [of "''Twitter feed''" "''Twitter''" 0 0] c m z
  have "cutFooter ''Twitter feed'' ''Twitter'' = ''Twitter feed''"
    and "prefix ''Twitter'' (cleanDescription ''Twitter feed'')"
    by blast+
  moreover from C4_footer_cut [of "''ab '' @ copyright @ '' 2020-2025 Riot Games''" "[]" 0 0]
  have "cleanDescription (''ab '' @ copyright @ '' 2020-2025 Riot Games'') =
     strings_TrimSpace (foldl cutFooter
      (strings_TrimSpace
         (ReplaceAllString spacesRe
            (ReplaceAllString imageRe
               (ReplaceAllString linkRe (''ab '' @ copyright @ '' 2020-2025 Riot Games'')
                  (\<lambda>g. submatch g 1)) (\<lambda>g. []))
            (\<lambda>g. '' '')))
      descFooterPatterns)"
    by blast
  ultimately show ?thesis by (simp only: riot_rounds simp_thms)
qed
section \<open>The stop list\<close>

text \<open>
  C5: the name of an emitted sub-record never has the upper-case form of a word of the stop
  list: the loop compares \<^verbatim>\<open>strings.ToUpper(line)\<close> with \<^verbatim>\<open>strings.ToUpper(word)\<close> for every word.
  So the name is no word of the list, in particular not \<^verbatim>\<open>ROLE\<close>, however the line is placed;
  and its upper-case form is no word of the list either, \<^verbatim>\<open>strings.ToUpper\<close> changing nothing
  in a string it has produced.
\<close>

theorem C5_stop_list:
  assumes "a \<in> set (parseAbilities L markdown)"
  shows "(\<forall>word\<in>set skipWords.
            strings_ToUpper L (Ability.Name a) \<noteq> strings_ToUpper L word) \<and>
         Ability.Name a \<notin> set skipWords \<and>
         Ability.Name a \<noteq> ''ROLE'' \<and>
         ((\<forall>s. strings_ToUpper L (strings_ToUpper L s) = strings_ToUpper L s) \<longrightarrow>
            strings_ToUpper L (Ability.Name a) \<notin> set skipWords)"
proof -
  from parseAbilities_emittedName [OF assms]
  have "\<not> isSkipWord L (Ability.Name a)" by (simp add: emittedName_def)
  then have ne: "\<forall>word\<in>set skipWords.
      strings_ToUpper L (Ability.Name a) \<noteq> strings_ToUpper L word"
    by (simp add: isSkipWord_def list_ex_iff)
  then have notin: "Ability.Name a \<notin> set skipWords" by blast
  moreover have "''ROLE'' \<in> set skipWords" by (simp add: skipWords_def)
  ultimately have role: "Ability.Name a \<noteq> ''ROLE''" by metis
  have "strings_ToUpper L (Ability.Name a) \<notin> set skipWords"
    if idem: "\<forall>s. strings_ToUpper L (strings_ToUpper L s) = strings_ToUpper L s"
  proof
    assume "strings_ToUpper L (Ability.Name a) \<in> set skipWords"
    with ne have "strings_ToUpper L (Ability.Name a) \<noteq>
      strings_ToUpper L (strings_ToUpper L (Ability.Name a))" by blast
    with idem show False by simp
  qed
  with ne notin role show ?thesis by blast
qed


lemma stop_abilities:
  "parseAbilities small_lib stop_doc =
     [\<lparr>Ability.Name = ''FIRST ONE'', Description = ''does one thing.'',
       Image = ''http://x/1.png''\<rparr>]"
  by code_simp

theorem C5_stop_list_witness:
  "parseAbilities small_lib stop_doc =
     [\<lparr>Ability.Name = ''FIRST ONE'', Description = ''does one thing.'',
       Image = ''http://x/1.png''\<rparr>] \<and>
   strings_ToUpper small_lib ''FIRST ONE'' \<notin> set skipWords \<and>
   ''FIRST ONE'' \<notin> set skipWords"
proof -
  let ?a = "\<lparr>Ability.Name = ''FIRST ONE'', Description = ''does one thing.'',
       Image = ''http://x/1.png''\<rparr>"
  have "?a \<in> set (parseAbilities small_lib stop_doc)"
    by (simp add: stop_abilities)
  moreover have "\<forall>s. strings_ToUpper small_lib (strings_ToUpper small_lib s) =
      strings_ToUpper small_lib s"
    by (simp add: small_lib_def ascii_upper_idem)
  ultimately show ?thesis
    using C5_stop_list [of ?a small_lib stop_doc] by (simp add: stop_abilities)
qed

section \<open>Targets that do not parse\<close>








section \<open>The media list\<close>

text \<open>
  C8: the media list is the list of normal forms of the image targets (trimmed, not empty)
  with every target that occurred before left out: the first occurrence of a raw string
  stays, in document order, and no raw string is behind two entries.  The list has one
  entry for every different raw string, so two different raw strings with the same normal
  form both appear: that normal form is in the list at least twice.
\<close>

theorem C8_media_dedup:
  "extractImages L markdown =
     map (urlEncode L) (rev (remdups (rev (imageTargets markdown)))) \<and>
   distinct (rev (remdups (rev (imageTargets markdown)))) \<and>
   length (extractImages L markdown) = card (set (imageTargets markdown)) \<and>
   (r1 \<in> set (imageTargets markdown) \<and> r2 \<in> set (imageTargets markdown) \<and> r1 \<noteq> r2 \<and>
    urlEncode L r1 = urlEncode L r2 \<longrightarrow>
      2 \<le> count_list (extractImages L markdown) (urlEncode L r1))"
proof (intro conjI impI)
  show "extractImages L markdown =
     map (urlEncode L) (rev (remdups (rev (imageTargets markdown))))"
    by (rule extractImages_eq)
  show "distinct (rev (remdups (rev (imageTargets markdown))))"
    by simp
  show "length (extractImages L markdown) = card (set (imageTargets markdown))"
    by (simp add: extractImages_eq length_remdups_card_conv)
next
  assume "r1 \<in> set (imageTargets markdown) \<and> r2 \<in> set (imageTargets markdown) \<and> r1 \<noteq> r2 \<and>
    urlEncode L r1 = urlEncode L r2"
  then show "2 \<le> count_list (extractImages L markdown) (urlEncode L r1)"
    unfolding extractImages_eq
    by (intro count_list_map_ge2 [where a = r1 and b = r2]) auto
qed

lemma media_targets: "imageTargets media_doc = [''HTTP://x/1.png'', ''http://x/1.png'', ''HTTP://x/1.png'']"
  by code_simp

theorem C8_media_dedup_witness:
  "extractImages small_lib media_doc = [''http://x/1.png'', ''http://x/1.png''] \<and>
   imageTargets media_doc = [''HTTP://x/1.png'', ''http://x/1.png'', ''HTTP://x/1.png''] \<and>
   2 \<le> count_list (extractImages small_lib media_doc) ''http://x/1.png''"
  using C8_media_dedup [where L = small_lib and markdown = media_doc
      and ?r1.0 = "''HTTP://x/1.png''" and ?r2.0 = "''http://x/1.png''"]
  by (simp add: media_targets small_lib_urlEncode)

section \<open>The role\<close>

lemma role_doc_role: "extractRole role_doc = []"
  by code_simp

text \<open>
  C9, as the spec states it, fails: the first line of \<open>role_doc\<close> is the label with a space
  before it, a value line follows, and the role extracted is empty.
\<close>

theorem C9_counterexample:
  "strings_Split role_doc nl = ['' ROLE'', ''Duelist''] \<and>
   strings_TrimSpace '' ROLE'' = ''ROLE'' \<and>
   extractRole role_doc = []"
proof -
  have "strings_Split role_doc nl = ['' ROLE'', ''Duelist'']" by code_simp
  moreover have "strings_TrimSpace '' ROLE'' = ''ROLE''" by code_simp
  ultimately show ?thesis by (simp add: role_doc_role)
qed

text \<open>
  C9, amended: the label is \<^verbatim>\<open>ROLE\<close> at the very start of a line, with no white space before
  it and nothing but white space after it.  For every document the role is the trimmed value
  line of the first match of the label-then-value pattern, a label line followed, blank
  lines skipped, by a value line; it is the empty string when no such match exists.  White
  space is that of the class \<^verbatim>\<open>\s\<close> of the expression; the trimming is that of
  \<^verbatim>\<open>strings.TrimSpace\<close>.
\<close>

theorem C9_role:
  "extractRole markdown =
     (case roleMatch (strings_Split markdown nl) of
        None \<Rightarrow> []
      | Some v \<Rightarrow> strings_TrimSpace v)"
  unfolding extractRole_roleAt by (rule roleAt_roleMatch) simp

lemma role_examples:
  "(case roleMatch (strings_Split ''ROLEX\<newline>foo\<newline>ROLE\<newline>Duelist'' nl) of
      None \<Rightarrow> [] | Some v \<Rightarrow> strings_TrimSpace v) = ''Duelist''"
  "(case roleMatch (strings_Split jett_doc nl) of
      None \<Rightarrow> [] | Some v \<Rightarrow> strings_TrimSpace v) = ''Duelist''"
  "(case roleMatch (strings_Split ''ROLE \<newline>  \<newline>  Duelist  \<newline>Initiator'' nl) of
      None \<Rightarrow> [] | Some v \<Rightarrow> strings_TrimSpace v) = ''Duelist''"
  "(case roleMatch (strings_Split ''ROLE x\<newline>ROLE\<newline>Sentinel'' nl) of
      None \<Rightarrow> [] | Some v \<Rightarrow> strings_TrimSpace v) = ''Sentinel''"
  "(case roleMatch (strings_Split ''# Jett'' nl) of
      None \<Rightarrow> [] | Some v \<Rightarrow> strings_TrimSpace v) = []"
  "(case roleMatch (strings_Split ''ROLE\<newline>  \<newline>'' nl) of
      None \<Rightarrow> [] | Some v \<Rightarrow> strings_TrimSpace v) = []"
  "(case roleMatch (strings_Split role_doc nl) of
      None \<Rightarrow> [] | Some v \<Rightarrow> strings_TrimSpace v) = []"
  by code_simp+

theorem C9_role_witness:
  "extractRole ''ROLEX\<newline>foo\<newline>ROLE\<newline>Duelist'' = ''Duelist'' \<and>
   extractRole jett_doc = ''Duelist'' \<and>
   extractRole ''ROLE \<newline>  \<newline>  Duelist  \<newline>Initiator'' = ''Duelist'' \<and>
   extractRole ''ROLE x\<newline>ROLE\<newline>Sentinel'' = ''Sentinel'' \<and>
   extractRole ''# Jett'' = [] \<and>
   extractRole ''ROLE\<newline>  \<newline>'' = [] \<and>
   extractRole role_doc = []"
  using C9_role [of "''ROLEX\<newline>foo\<newline>ROLE\<newline>Duelist''"]
    C9_role [of jett_doc]
    C9_role [of "''ROLE \<newline>  \<newline>  Duelist  \<newline>Initiator''"]
    C9_role [of "''ROLE x\<newline>ROLE\<newline>Sentinel''"]
    C9_role [of "''# Jett''"]
    C9_role [of "''ROLE\<newline>  \<newline>''"]
    C9_role [of role_doc]
  by (simp only: role_examples simp_thms)
section \<open>The flag seenLargeImage\<close>

text \<open>
  C10: no iteration of the loop clears \<open>seenLargeImage\<close>, so once set it stays set to the end
  of the walk.  An image line sets it, and the walk goes on from the state with the flag set.
  A candidate name is a line whose trimmed form passes every test of the loop other than the
  flag (\<open>emittedName\<close>: not empty, no image marker, the length, case and blank tests, no stop
  word).  From a state with the flag set the walk emits the candidates among its lines, in
  order, one sub-record each, until \<open>abilityIndex\<close> reaches 4; from a state without the flag
  it emits exactly the candidates that come after the first image line, and none of those
  before it.  So after one image line every later candidate is emitted while fewer than four
  sub-records exist, and the names of the sub-records of a document are the first four
  candidates after the first image line that follows the numbered images; a section whose
  walked lines hold no image line gives no sub-record at all.
\<close>

theorem C10_seen_flag:
  "(seenLargeImage st \<longrightarrow>
      seenLargeImage (walk_step L imageMap st l following) \<and>
      seenLargeImage (walk L imageMap st lines)) \<and>
   (isImageLine l \<longrightarrow> seenLargeImage (walk_step L imageMap st l following)) \<and>
   (isImageLine l \<and> abilityIndex st < 4 \<longrightarrow>
      walk L imageMap st (l # lines) = walk L imageMap (st\<lparr>seenLargeImage := True\<rparr>) lines) \<and>
   (seenLargeImage st \<and> strings_TrimSpace l \<noteq> [] \<and> \<not> isImageLine l \<and>
    isAbilityName L True (strings_TrimSpace l) \<and> \<not> isSkipWord L (strings_TrimSpace l) \<longrightarrow>
      map Ability.Name (abilities (walk_step L imageMap st l following)) =
        map Ability.Name (abilities st) @ [strings_TrimSpace l]) \<and>
   (\<not> seenLargeImage st \<and> (\<forall>l\<in>set pre. \<not> isImageLine l) \<longrightarrow>
      walk L imageMap st (pre @ lines) = walk L imageMap st lines \<and>
      abilities (walk L imageMap st pre) = abilities st) \<and>
   (abilitiesSection markdown = Some section1 \<and>
    (\<forall>l\<in>set (drop (numberedImagesEnd_loop 0 0 (strings_Split section1 nl))
                   (strings_Split section1 nl)). \<not> isImageLine l) \<longrightarrow>
      parseAbilities L markdown = []) \<and>
   (seenLargeImage st \<longrightarrow>
      map Ability.Name (abilities (walk L imageMap st lines)) =
        map Ability.Name (abilities st) @
          take (nat (4 - abilityIndex st))
            (filter (emittedName L) (map strings_TrimSpace lines))) \<and>
   (\<not> seenLargeImage st \<longrightarrow>
      map Ability.Name (abilities (walk L imageMap st lines)) =
        map Ability.Name (abilities st) @
          take (nat (4 - abilityIndex st))
            (filter (emittedName L)
               (map strings_TrimSpace
                  (drop 1 (dropWhile (\<lambda>l. \<not> isImageLine l) lines))))) \<and>
   (isImageLine i \<and>
    abilityIndex st + int (length (filter (emittedName L) (map strings_TrimSpace mid))) < 4 \<and>
    emittedName L (strings_TrimSpace c) \<longrightarrow>
      strings_TrimSpace c \<in>
        set (map Ability.Name (abilities (walk L imageMap st (i # mid @ c # rest))))) \<and>
   (abilitiesSection markdown = Some section1 \<longrightarrow>
      map Ability.Name (parseAbilities L markdown) =
        take 4 (filter (emittedName L)
          (map strings_TrimSpace
             (drop 1 (dropWhile (\<lambda>l. \<not> isImageLine l)
                (drop (numberedImagesEnd_loop 0 0 (strings_Split section1 nl))
                      (strings_Split section1 nl)))))))"
proof (intro conjI impI)
  assume "seenLargeImage st"
  then show "seenLargeImage (walk_step L imageMap st l following)"
    and "seenLargeImage (walk L imageMap st lines)"
    by (simp_all add: walk_step_seen walk_seen)
next
  assume "isImageLine l"
  then show "seenLargeImage (walk_step L imageMap st l following)"
    by (simp add: walk_step_image)
next
  assume "isImageLine l \<and> abilityIndex st < 4"
  then show "walk L imageMap st (l # lines) =
     walk L imageMap (st\<lparr>seenLargeImage := True\<rparr>) lines"
    by (simp add: walk_step_image)
next
  assume "seenLargeImage st \<and> strings_TrimSpace l \<noteq> [] \<and> \<not> isImageLine l \<and>
    isAbilityName L True (strings_TrimSpace l) \<and> \<not> isSkipWord L (strings_TrimSpace l)"
  then show "map Ability.Name (abilities (walk_step L imageMap st l following)) =
        map Ability.Name (abilities st) @ [strings_TrimSpace l]"
    by (simp add: walk_step_name)
next
  assume a: "\<not> seenLargeImage st \<and> (\<forall>l\<in>set pre. \<not> isImageLine l)"
  then show "walk L imageMap st (pre @ lines) = walk L imageMap st lines"
    by (simp add: walk_unseen_prefix)
  from a walk_unseen_prefix [of st pre L imageMap "[]"]
  show "abilities (walk L imageMap st pre) = abilities st"
    by simp
next
  assume a: "abilitiesSection markdown = Some section1 \<and>
    (\<forall>l\<in>set (drop (numberedImagesEnd_loop 0 0 (strings_Split section1 nl))
                   (strings_Split section1 nl)). \<not> isImageLine l)"
  let ?st = "\<lparr>abilityIndex = 0, seenLargeImage = False, abilities = []\<rparr>"
  let ?ls = "drop (numberedImagesEnd_loop 0 0 (strings_Split section1 nl))
                   (strings_Split section1 nl)"
  from a walk_unseen_prefix [of ?st ?ls L _ "[]"]
  have "walk L (imageMap_of (FindAllStringSubmatch abilityImageRe section1)) ?st ?ls = ?st"
    by simp
  with a show "parseAbilities L markdown = []"
    by (simp add: parseAbilities_def Let_def)
next
  assume "seenLargeImage st"
  then show "map Ability.Name (abilities (walk L imageMap st lines)) =
        map Ability.Name (abilities st) @
          take (nat (4 - abilityIndex st))
            (filter (emittedName L) (map strings_TrimSpace lines))"
    by (rule walk_names_seen)
next
  assume "\<not> seenLargeImage st"
  then show "map Ability.Name (abilities (walk L imageMap st lines)) =
        map Ability.Name (abilities st) @
          take (nat (4 - abilityIndex st))
            (filter (emittedName L)
               (map strings_TrimSpace
                  (drop 1 (dropWhile (\<lambda>l. \<not> isImageLine l) lines))))"
    by (rule walk_names_unseen)
next
  assume "isImageLine i \<and>
    abilityIndex st + int (length (filter (emittedName L) (map strings_TrimSpace mid))) < 4 \<and>
    emittedName L (strings_TrimSpace c)"
  then show "strings_TrimSpace c \<in>
        set (map Ability.Name (abilities (walk L imageMap st (i # mid @ c # rest))))"
    by (intro walk_image_licenses) simp_all
next
  assume "abilitiesSection markdown = Some section1"
  then show "map Ability.Name (parseAbilities L markdown) =
        take 4 (filter (emittedName L)
          (map strings_TrimSpace
             (drop 1 (dropWhile (\<lambda>l. \<not> isImageLine l)
                (drop (numberedImagesEnd_loop 0 0 (strings_Split section1 nl))
                      (strings_Split section1 nl))))))"
    by (rule parseAbilities_names)
qed

lemma image_line_examples:
  "isImageLine ''![big](http://x/big.png)''"
  "\<not> isImageLine ''CLOUDBURST''"
  "\<not> isImageLine ''Throws a cloud.''"
  by code_simp+

lemma flag_doc_section: "abilitiesSection flag_doc = Some flag_doc"
  by code_simp

lemma flag_doc_names:
  "take 4 (filter (emittedName small_lib)
          (map strings_TrimSpace
             (drop 1 (dropWhile (\<lambda>l. \<not> isImageLine l)
                (drop (numberedImagesEnd_loop 0 0 (strings_Split flag_doc nl))
                      (strings_Split flag_doc nl)))))) = [''FIRST ONE'', ''SECOND ONE'']"
  by code_simp

lemma candidate_examples:
  "emittedName small_lib (strings_TrimSpace ''EARLY NAME'')"
  "emittedName small_lib (strings_TrimSpace ''SECOND ONE'')"
  "filter (emittedName small_lib) (map strings_TrimSpace [''FIRST ONE'', ''does one thing.'']) =
     [''FIRST ONE'']"
  by code_simp+

theorem C10_seen_flag_witness:
  "seenLargeImage (walk_step small_lib []
      \<lparr>abilityIndex = 0, seenLargeImage = False, abilities = []\<rparr>
      ''![big](http://x/big.png)'' [''FIRST ONE'']) \<and>
   seenLargeImage (walk small_lib []
      \<lparr>abilityIndex = 0, seenLargeImage = True, abilities = []\<rparr>
      [''FIRST ONE'', ''does one thing.'']) \<and>
   abilities (walk small_lib []
      \<lparr>abilityIndex = 0, seenLargeImage = False, abilities = []\<rparr>
      [''CLOUDBURST'', ''Throws a cloud.'']) = [] \<and>
   ''SECOND ONE'' \<in> set (map Ability.Name (abilities (walk small_lib []
      \<lparr>abilityIndex = 0, seenLargeImage = False, abilities = []\<rparr>
      [''![big](http://x/big.png)'', ''FIRST ONE'', ''does one thing.'', ''SECOND ONE'',
       ''does another thing.'']))) \<and>
   emittedName small_lib (strings_TrimSpace ''EARLY NAME'') \<and>
   map Ability.Name (parseAbilities small_lib flag_doc) = [''FIRST ONE'', ''SECOND ONE'']"
proof -
  let ?u = "\<lparr>abilityIndex = 0, seenLargeImage = False, abilities = []\<rparr>"
  let ?s = "\<lparr>abilityIndex = 0, seenLargeImage = True, abilities = []\<rparr>"
  have pre: "\<forall>l\<in>set [''CLOUDBURST'', ''Throws a cloud.'']. \<not> isImageLine l"
    by (simp add: image_line_examples)
  from C10_seen_flag [where st = ?u and l = "''![big](http://x/big.png)''" and L = small_lib
      and imageMap = "[]" and following = "[''FIRST ONE'']"
      and pre = "[''CLOUDBURST'', ''Throws a cloud.'']" and lines = "[]"
      and markdown = "[]" and ?section1.0 = "[]" and i = "[]" and mid = "[]" and c = "[]"
      and rest = "[]"] pre
  have a: "seenLargeImage (walk_step small_lib [] ?u ''![big](http://x/big.png)'' [''FIRST ONE''])"
    and b: "abilities (walk small_lib [] ?u [''CLOUDBURST'', ''Throws a cloud.'']) = []"
    by (simp_all add: image_line_examples)
  from C10_seen_flag [where st = ?s and L = small_lib and imageMap = "[]"
      and lines = "[''FIRST ONE'', ''does one thing.'']" and l = "[]" and following = "[]"
      and pre = "[]" and markdown = "[]" and ?section1.0 = "[]" and i = "[]" and mid = "[]"
      and c = "[]" and rest = "[]"]
  have c: "seenLargeImage (walk small_lib [] ?s [''FIRST ONE'', ''does one thing.''])"
    by simp
  have hyp: "isImageLine ''![big](http://x/big.png)'' \<and>
    abilityIndex ?u + int (length (filter (emittedName small_lib)
        (map strings_TrimSpace [''FIRST ONE'', ''does one thing.'']))) < 4 \<and>
    emittedName small_lib (strings_TrimSpace ''SECOND ONE'')"
    by (simp add: image_line_examples candidate_examples)
  have trim: "strings_TrimSpace ''SECOND ONE'' = ''SECOND ONE''" by code_simp
  from C10_seen_flag [where st = ?u and L = small_lib and imageMap = "[]"
      and i = "''![big](http://x/big.png)''" and mid = "[''FIRST ONE'', ''does one thing.'']"
      and c = "''SECOND ONE''" and rest = "[''does another thing.'']"
      and lines = "[]" and l = "[]" and following = "[]"
      and pre = "[]" and markdown = "[]" and ?section1.0 = "[]"] hyp
  have d: "''SECOND ONE'' \<in> set (map Ability.Name (abilities (walk small_lib [] ?u
      [''![big](http://x/big.png)'', ''FIRST ONE'', ''does one thing.'', ''SECOND ONE'',
       ''does another thing.''])))"
    unfolding trim by (simp del: walk.simps)
  from C10_seen_flag [where L = small_lib and markdown = flag_doc and ?section1.0 = flag_doc
      and st = ?u and imageMap = "[]" and lines = "[]" and l = "[]" and following = "[]"
      and pre = "[]" and i = "[]" and mid = "[]" and c = "[]" and rest = "[]"]
    flag_doc_section
  have e: "map Ability.Name (parseAbilities small_lib flag_doc) =
        take 4 (filter (emittedName small_lib)
          (map strings_TrimSpace
             (drop 1 (dropWhile (\<lambda>l. \<not> isImageLine l)
                (drop (numberedImagesEnd_loop 0 0 (strings_Split flag_doc nl))
                      (strings_Split flag_doc nl))))))"
    by blast
  from a b c d e candidate_examples(1) show ?thesis
    by (simp only: flag_doc_names simp_thms)
qed
end
